theory Spec2Isabelle
  imports Complex_Main "HOL-Library.Word"
begin

section \<open>Failures\<close>

text \<open>
  Every \<^verbatim>\<open>throw\<close> of the sources is a value of \<open>error\<close>.  Reading a vector or a
  string view past its end is undefined behaviour in C++; the model stops there with
  \<open>OutOfBounds\<close> instead of inventing a value.
\<close>

datatype error =
    TreeCollision        \<comment> \<open>\<^verbatim>\<open>std::runtime_error("Tree collision!")\<close>\<close>
  | ValueDoesNotExist    \<comment> \<open>\<^verbatim>\<open>std::runtime_error("Value does not exist")\<close>\<close>
  | InvalidModification  \<comment> \<open>\<^verbatim>\<open>std::runtime_error("Invalid modification!")\<close>\<close>
  | InvalidArgument      \<comment> \<open>\<^verbatim>\<open>std::invalid_argument\<close> of \<^verbatim>\<open>std::stoi\<close>\<close>
  | OutOfRange           \<comment> \<open>\<^verbatim>\<open>std::out_of_range\<close> of \<^verbatim>\<open>std::stoi\<close> and \<^verbatim>\<open>std::map::at\<close>\<close>
  | AssertionFailed      \<comment> \<open>a failed \<^verbatim>\<open>assert\<close>\<close>
  | OutOfBounds          \<comment> \<open>an index past the end of a vector or string view\<close>
  | DivisionByZero       \<comment> \<open>an integer division or remainder by zero\<close>
  | OutOfFuel            \<comment> \<open>the bound on the depth of a recursion of the model is used up\<close>

definition SIZE_MAX :: nat where
  "SIZE_MAX = 2 ^ 64 - 1"

section \<open>The type float\<close>

text \<open>
  \<^verbatim>\<open>float\<close> is the binary32 format of IEEE 754: the finite values \<open>m * 2 ^ e\<close> with an
  integer \<open>m\<close>, \<open>\<bar>m\<bar> < 2 ^ 24\<close> and \<open>- 149 \<le> e \<le> 104\<close>, the two infinities and NaN.
  A finite value is the real number it stands for.  The two zeros are not told apart:
  they compare equal, and the only operation that tells them apart is a division by
  zero, where every divisor of the sources is a converted \<^verbatim>\<open>size_t\<close> or a sum that
  started at \<^verbatim>\<open>0.0\<close>, which is never the negative zero.
\<close>

datatype float = Finite real | PlusInf | MinusInf | NaN

text \<open>The nearest integer, the even one of two that are equally near.\<close>

definition round_even :: "real \<Rightarrow> int" where
  "round_even x =
     (let f = \<lfloor>x\<rfloor>; d = x - of_int f
      in if d < 1 / 2 then f else if 1 / 2 < d then f + 1 else if even f then f else f + 1)"

text \<open>
  The exponent \<open>e\<close> of the float nearest to \<open>x\<close>: the least one from \<open>- 149\<close> on with
  \<open>\<bar>x\<bar> < 2 ^ (e + 24)\<close>; there is none when \<open>2 ^ 128 \<le> \<bar>x\<bar>\<close>.  \<open>rnd\<close> is the
  rounding of every arithmetic operation: to the nearest float, to the one with the even
  \<open>m\<close> of two that are equally near, and to an infinity from \<open>2 ^ 128 - 2 ^ 103\<close> on.
\<close>

definition exponent :: "real \<Rightarrow> int option" where
  "exponent x = List.find (\<lambda>e. \<bar>x\<bar> < 2 powi (e + 24)) [-149..104]"

definition rnd :: "real \<Rightarrow> float" where
  "rnd x =
     (case exponent x of
        None \<Rightarrow> if 0 < x then PlusInf else MinusInf
      | Some e \<Rightarrow>
          (let y = of_int (round_even (x / 2 powi e)) * 2 powi e
           in if 2 ^ 128 \<le> \<bar>y\<bar> then (if 0 < x then PlusInf else MinusInf) else Finite y))"

text \<open>The conversion \<^verbatim>\<open>float(n)\<close> of a \<^verbatim>\<open>size_t\<close>.\<close>

definition of_size :: "nat \<Rightarrow> float" where
  "of_size n = rnd (real n)"

text \<open>The sign of a float that is not NaN: \<open>True\<close> for a positive one.\<close>

definition positive :: "float \<Rightarrow> bool" where
  "positive a = (case a of Finite x \<Rightarrow> 0 < x | PlusInf \<Rightarrow> True | MinusInf \<Rightarrow> False | NaN \<Rightarrow> False)"

text \<open>\<^verbatim>\<open>a + b\<close>, \<^verbatim>\<open>a * b\<close> and \<^verbatim>\<open>a / b\<close> on floats.\<close>

definition fadd :: "float \<Rightarrow> float \<Rightarrow> float" where
  "fadd a b =
     (case (a, b) of
        (Finite x, Finite y) \<Rightarrow> rnd (x + y)
      | (NaN, _) \<Rightarrow> NaN
      | (_, NaN) \<Rightarrow> NaN
      | (PlusInf, MinusInf) \<Rightarrow> NaN
      | (MinusInf, PlusInf) \<Rightarrow> NaN
      | (PlusInf, _) \<Rightarrow> PlusInf
      | (_, PlusInf) \<Rightarrow> PlusInf
      | (MinusInf, _) \<Rightarrow> MinusInf
      | (_, MinusInf) \<Rightarrow> MinusInf)"

definition fmul :: "float \<Rightarrow> float \<Rightarrow> float" where
  "fmul a b =
     (case (a, b) of
        (Finite x, Finite y) \<Rightarrow> rnd (x * y)
      | (NaN, _) \<Rightarrow> NaN
      | (_, NaN) \<Rightarrow> NaN
      | _ \<Rightarrow> if a = Finite 0 \<or> b = Finite 0 then NaN
             else if positive a = positive b then PlusInf else MinusInf)"

definition fdiv :: "float \<Rightarrow> float \<Rightarrow> float" where
  "fdiv a b =
     (case (a, b) of
        (Finite x, Finite y) \<Rightarrow>
          if y = 0 then (if x = 0 then NaN else if 0 < x then PlusInf else MinusInf)
          else rnd (x / y)
      | (NaN, _) \<Rightarrow> NaN
      | (_, NaN) \<Rightarrow> NaN
      | (Finite x, _) \<Rightarrow> Finite 0
      | (_, Finite y) \<Rightarrow> if (a = PlusInf) = (0 \<le> y) then PlusInf else MinusInf
      | _ \<Rightarrow> NaN)"

text \<open>\<^verbatim>\<open>a < b\<close>, \<^verbatim>\<open>a == b\<close> and \<^verbatim>\<open>a <= b\<close>; every comparison with NaN is false, and
  \<^verbatim>\<open>a != b\<close> is the negation of \<^verbatim>\<open>a == b\<close>.\<close>

definition flt :: "float \<Rightarrow> float \<Rightarrow> bool" where
  "flt a b =
     (case (a, b) of
        (Finite x, Finite y) \<Rightarrow> x < y
      | (NaN, _) \<Rightarrow> False
      | (_, NaN) \<Rightarrow> False
      | (MinusInf, MinusInf) \<Rightarrow> False
      | (MinusInf, _) \<Rightarrow> True
      | (Finite x, PlusInf) \<Rightarrow> True
      | _ \<Rightarrow> False)"

definition feq :: "float \<Rightarrow> float \<Rightarrow> bool" where
  "feq a b = (a \<noteq> NaN \<and> a = b)"

definition fle :: "float \<Rightarrow> float \<Rightarrow> bool" where
  "fle a b = (flt a b \<or> feq a b)"

section \<open>shared.h: the cache tree\<close>

text \<open>
  \<^verbatim>\<open>Tree<T>::Node\<close> has a key, a value and a vector of child nodes.  The template's
  default value \<^verbatim>\<open>T()\<close> is passed to every operation as the parameter \<open>d\<close>.
\<close>

datatype 'v node = Node (key: string) (nvalue: 'v) (states: "'v node list")

text \<open>\<^verbatim>\<open>std::find(states.begin(), states.end(), val)\<close>: the first child whose key is
  \<open>val\<close>, as an index; \<open>None\<close> is \<^verbatim>\<open>states.end()\<close>.\<close>

fun find_state :: "string \<Rightarrow> 'v node list \<Rightarrow> nat option" where
  "find_state val [] = None"
| "find_state val (n # ns) =
     (if key n = val then Some 0
      else (case find_state val ns of None \<Rightarrow> None | Some i \<Rightarrow> Some (Suc i)))"

text \<open>\<^verbatim>\<open>Node::add(row, v, max, x)\<close>.  \<^verbatim>\<open>max + 1\<close> is computed on \<^verbatim>\<open>size_t\<close>.\<close>

function add_node :: "'v \<Rightarrow> string list \<Rightarrow> 'v \<Rightarrow> nat \<Rightarrow> nat \<Rightarrow> 'v node \<Rightarrow> error + 'v node" where
  "add_node d row v mx x (Node k val sts) =
     (if x = (mx + 1) mod 2 ^ 64 then
        (if val \<noteq> d then Inl TreeCollision else Inr (Node k v sts))
      else if length row \<le> x then Inl OutOfBounds
      else
        (case find_state (row ! x) sts of
           None \<Rightarrow>
             (case add_node d row v mx (x + 1) (Node (row ! x) d []) of
                Inl e \<Rightarrow> Inl e
              | Inr n' \<Rightarrow> Inr (Node k val (sts @ [n'])))
         | Some i \<Rightarrow>
             (case add_node d row v mx (x + 1) (sts ! i) of
                Inl e \<Rightarrow> Inl e
              | Inr n' \<Rightarrow> Inr (Node k val (sts[i := n'])))))"
  by pat_completeness auto
termination
  by (relation "measure (\<lambda>(d, row, v, mx, x, n). length row - x)") auto

text \<open>\<^verbatim>\<open>Node::in(row, max, x)\<close>.\<close>

function in_node :: "'v \<Rightarrow> string list \<Rightarrow> nat \<Rightarrow> nat \<Rightarrow> 'v node \<Rightarrow> error + bool" where
  "in_node d row mx x (Node k val sts) =
     (if x = (mx + 1) mod 2 ^ 64 then Inr (val \<noteq> d)
      else if length row \<le> x then Inl OutOfBounds
      else if sts = [] then Inr False
      else
        (case find_state (row ! x) sts of
           None \<Rightarrow> Inr False
         | Some i \<Rightarrow> in_node d row mx (x + 1) (sts ! i)))"
  by pat_completeness auto
termination
  by (relation "measure (\<lambda>(d, row, mx, x, n). length row - x)") auto

text \<open>\<^verbatim>\<open>Node::get(row, max, x)\<close>.\<close>

function get_node :: "string list \<Rightarrow> nat \<Rightarrow> nat \<Rightarrow> 'v node \<Rightarrow> error + 'v" where
  "get_node row mx x (Node k val sts) =
     (if x = (mx + 1) mod 2 ^ 64 then Inr val
      else if length row \<le> x then Inl OutOfBounds
      else
        (case find_state (row ! x) sts of
           None \<Rightarrow> Inl ValueDoesNotExist
         | Some i \<Rightarrow> get_node row mx (x + 1) (sts ! i)))"
  by pat_completeness auto
termination
  by (relation "measure (\<lambda>(row, mx, x, n). length row - x)") auto

text \<open>The class \<^verbatim>\<open>Tree<T>\<close>: the root node and the two counters of the statistics.\<close>

record 'v tree =
  root :: "'v node"
  hits :: nat
  misses :: nat

definition empty_tree :: "'v \<Rightarrow> 'v tree" where
  "empty_tree d = \<lparr>root = Node [] d [], hits = 0, misses = 0\<rparr>"

text \<open>\<^verbatim>\<open>(max == SIZE_MAX ? row.size() - 1 : max)\<close>, the subtraction on \<^verbatim>\<open>size_t\<close>.\<close>

definition upper_bound :: "string list \<Rightarrow> nat \<Rightarrow> nat" where
  "upper_bound row mx =
     (if mx = SIZE_MAX then (length row + 2 ^ 64 - 1) mod 2 ^ 64 else mx)"

definition tree_add :: "'v \<Rightarrow> 'v tree \<Rightarrow> string list \<Rightarrow> 'v \<Rightarrow> nat \<Rightarrow> error + 'v tree" where
  "tree_add d t row v mx =
     (case add_node d row v (upper_bound row mx) 0 (root t) of
        Inl e \<Rightarrow> Inl e
      | Inr n \<Rightarrow> Inr (t\<lparr>root := n\<rparr>))"

definition tree_in :: "'v \<Rightarrow> 'v tree \<Rightarrow> string list \<Rightarrow> nat \<Rightarrow> error + (bool \<times> 'v tree)" where
  "tree_in d t row mx =
     (case in_node d row (upper_bound row mx) 0 (root t) of
        Inl e \<Rightarrow> Inl e
      | Inr i \<Rightarrow> Inr (i, if i then t\<lparr>hits := hits t + 1\<rparr> else t\<lparr>misses := misses t + 1\<rparr>))"

definition tree_get :: "'v tree \<Rightarrow> string list \<Rightarrow> nat \<Rightarrow> error + 'v" where
  "tree_get t row mx = get_node row (upper_bound row mx) 0 (root t)"

section \<open>Library functions the sources call\<close>

text \<open>
  \<^verbatim>\<open>std::stoi\<close> and \<^verbatim>\<open>std::atoi\<close> are not code of the repository; they are written
  here as the C++ standard describes them in base 10: leading white space is skipped, one
  sign is accepted, the longest run of digits is read.  \<^verbatim>\<open>stoi\<close> throws
  \<^verbatim>\<open>invalid_argument\<close> when there is no digit and \<^verbatim>\<open>out_of_range\<close> when the
  number is no \<^verbatim>\<open>int\<close>; \<^verbatim>\<open>atoi\<close> answers 0 when there is no digit (a number that
  is no \<^verbatim>\<open>int\<close> is undefined behaviour there, \<open>OutOfBounds\<close> in the model).
\<close>

definition is_space :: "char \<Rightarrow> bool" where
  "is_space c = (c \<in> set [CHR '' '', CHR 0x09, CHR 0x0A, CHR 0x0B, CHR 0x0C, CHR 0x0D])"

definition is_digit :: "char \<Rightarrow> bool" where
  "is_digit c = (c \<in> set ''0123456789'')"

definition digit_val :: "char \<Rightarrow> nat" where
  "digit_val c = of_char c - 48"

definition decimal :: "string \<Rightarrow> nat" where
  "decimal ds = foldl (\<lambda>acc c. 10 * acc + digit_val c) 0 ds"

text \<open>The sign and the digits a number starts with, after the white space.\<close>

definition number_prefix :: "string \<Rightarrow> bool \<times> string" where
  "number_prefix s =
     (let s1 = dropWhile is_space s in
      case s1 of
        [] \<Rightarrow> (False, [])
      | c # cs \<Rightarrow>
          if c = CHR ''-'' then (True, takeWhile is_digit cs)
          else if c = CHR ''+'' then (False, takeWhile is_digit cs)
          else (False, takeWhile is_digit s1))"

definition signed_value :: "bool \<times> string \<Rightarrow> int" where
  "signed_value p = (if fst p then - int (decimal (snd p)) else int (decimal (snd p)))"

definition is_int :: "int \<Rightarrow> bool" where
  "is_int v = (- (2 ^ 31) \<le> v \<and> v < 2 ^ 31)"

definition stoi :: "string \<Rightarrow> error + int" where
  "stoi s =
     (let p = number_prefix s in
      if snd p = [] then Inl InvalidArgument
      else if is_int (signed_value p) then Inr (signed_value p)
      else Inl OutOfRange)"

definition atoi :: "string \<Rightarrow> error + int" where
  "atoi s =
     (let p = number_prefix s in
      if snd p = [] then Inr 0
      else if is_int (signed_value p) then Inr (signed_value p)
      else Inl OutOfBounds)"

text \<open>The conversion of an \<^verbatim>\<open>int\<close> to \<^verbatim>\<open>size_t\<close>.\<close>

definition size_t_of_int :: "int \<Rightarrow> nat" where
  "size_t_of_int i = nat (i mod 2 ^ 64)"

text \<open>
  The random generators \<^verbatim>\<open>shared::rng\<close> and \<^verbatim>\<open>shared::gen\<close> are a sequence of raw
  numbers and the count of the draws made.  A \<^verbatim>\<open>std::uniform_int_distribution<>(a, b)\<close>
  gives a number in \<open>a..b\<close> (with \<open>b < a\<close> the library's behaviour is undefined), and
  \<^verbatim>\<open>std::ranges::shuffle\<close> picks each next element among those left with such a draw.
  How a library maps what the generator gives to the result is not fixed by the
  standard; the model takes the remainder of the next raw number.  Every sequence of
  results of a library is the sequence of results of the model for some sequence of raw
  numbers, so what is proved for every generator holds for the library's draws; the
  result for one given raw number is the model's own.
\<close>

record rng =
  raw :: "nat \<Rightarrow> nat"
  used :: nat

definition draw :: "nat \<Rightarrow> nat \<Rightarrow> rng \<Rightarrow> error + (nat \<times> rng)" where
  "draw a b g =
     (if b < a then Inl OutOfBounds
      else Inr (a + raw g (used g) mod (b - a + 1), g\<lparr>used := used g + 1\<rparr>))"

fun shuffle :: "nat \<Rightarrow> 'a list \<Rightarrow> rng \<Rightarrow> 'a list \<times> rng" where
  "shuffle 0 xs g = (xs, g)"
| "shuffle (Suc n) xs g =
     (if xs = [] then ([], g)
      else
        (let j = raw g (used g) mod length xs;
             r = shuffle n (take j xs @ drop (Suc j) xs) (g\<lparr>used := used g + 1\<rparr>)
         in (xs ! j # fst r, snd r)))"

section \<open>shared.h: split and Range\<close>

text \<open>
  \<^verbatim>\<open>shared::split(in, delim)\<close>.  The source advances by one character after each
  delimiter found, and every call in the modelled code passes a delimiter of one
  character, so the delimiter is a \<open>char\<close> here.  The result has at least one field.
\<close>

fun split :: "string \<Rightarrow> char \<Rightarrow> string list" where
  "split [] delim = [[]]"
| "split (c # cs) delim =
     (if c = delim then [] # split cs delim
      else (case split cs delim of
              [] \<Rightarrow> [[c]]
            | f # fs \<Rightarrow> (c # f) # fs))"

text \<open>\<^verbatim>\<open>class Range\<close>: \<^verbatim>\<open>min\<close>, \<^verbatim>\<open>max\<close> (both \<^verbatim>\<open>size_t\<close>) and the string \<^verbatim>\<open>out\<close>.\<close>

record Range =
  min_r :: nat
  max_r :: nat
  out :: string

text \<open>\<^verbatim>\<open>Range(const std::string& s)\<close>, with its two assertions.\<close>

definition Range_of_string :: "string \<Rightarrow> error + Range" where
  "Range_of_string s =
     (if s = [] then Inl AssertionFailed
      else if \<not> (hd s = CHR ''['' \<and> last s = CHR '']'') then Inl AssertionFailed
      else
        (let trimmed = take (length s - 2) (drop 1 s);
             minmax = split trimmed (CHR ''-'')
         in if length minmax \<noteq> 2 then Inl AssertionFailed
            else
              (case stoi (minmax ! 0) of
                 Inl e \<Rightarrow> Inl e
               | Inr lo \<Rightarrow>
                   (case stoi (minmax ! 1) of
                      Inl e \<Rightarrow> Inl e
                    | Inr hi \<Rightarrow>
                        Inr \<lparr>min_r = size_t_of_int lo, max_r = size_t_of_int hi, out = s\<rparr>))))"

text \<open>\<^verbatim>\<open>Range::in(const size_t&)\<close> and \<^verbatim>\<open>Range::in(const Range&)\<close>.\<close>

definition in_value :: "Range \<Rightarrow> nat \<Rightarrow> bool" where
  "in_value r val = (min_r r \<le> val \<and> val \<le> max_r r)"

definition in_range :: "Range \<Rightarrow> Range \<Rightarrow> bool" where
  "in_range r val = (min_r r \<le> min_r val \<and> max_r val \<le> max_r r)"

text \<open>\<^verbatim>\<open>Range::range()\<close>: \<^verbatim>\<open>max - min\<close> on \<^verbatim>\<open>size_t\<close>.\<close>

definition range_width :: "Range \<Rightarrow> nat" where
  "range_width r = (max_r r + 2 ^ 64 - min_r r) mod 2 ^ 64"

section \<open>domains.h: the hierarchy of a column\<close>

text \<open>
  \<^verbatim>\<open>class Domain\<close>: the name of the node and its children.  The counter \<^verbatim>\<open>s\<close> of the
  source is read by \<^verbatim>\<open>size()\<close> only, which no modelled function calls; it is left out.
\<close>

datatype Domain = Domain (dvalue: string) (children: "Domain list")

text \<open>
  The private \<^verbatim>\<open>find(child, stack)\<close>: \<open>None\<close> is \<^verbatim>\<open>false\<close>, and \<open>Some p\<close> is
  \<^verbatim>\<open>true\<close> with \<open>p\<close> the names pushed on the stack, the node found first and its
  ancestors after it.  \<open>find_in\<close> is the loop over the children.
\<close>

fun find_stack :: "string \<Rightarrow> Domain \<Rightarrow> string list option"
  and find_in :: "string \<Rightarrow> Domain list \<Rightarrow> string list option" where
  "find_stack child (Domain v cs) = find_in child cs"
| "find_in child [] = None"
| "find_in child (c # cs) =
     (if dvalue c = child then Some [dvalue c]
      else (case find_stack child c of
              Some p \<Rightarrow> Some (p @ [dvalue c])
            | None \<Rightarrow> find_in child cs))"

text \<open>The public \<^verbatim>\<open>find(child)\<close>: the stack, empty when the node is not found.\<close>

definition find_path :: "Domain \<Rightarrow> string \<Rightarrow> string list" where
  "find_path g child = (case find_stack child g of None \<Rightarrow> [] | Some p \<Rightarrow> p)"

text \<open>\<^verbatim>\<open>breadth(name)\<close>; \<open>breadth_in\<close> is the loop over the children, \<open>n\<close> their number.\<close>

fun breadth :: "string \<Rightarrow> Domain \<Rightarrow> nat"
  and breadth_in :: "string \<Rightarrow> nat \<Rightarrow> Domain list \<Rightarrow> nat" where
  "breadth name (Domain v cs) = breadth_in name (length cs) cs"
| "breadth_in name n [] = 0"
| "breadth_in name n (c # cs) =
     (if dvalue c = name then n
      else (let i = breadth name c in if i \<noteq> 0 then i else breadth_in name n cs))"

definition empty_domain :: "Domain \<Rightarrow> bool" where
  "empty_domain g = (dvalue g = [])"

section \<open>table.h: columns, mutations and tables\<close>

datatype type = string | integer

datatype classification = ignore | quasi | sensitive

text \<open>
  \<^verbatim>\<open>struct column\<close>.  \<^verbatim>\<open>ranges\<close> is a \<^verbatim>\<open>std::set<Range>\<close> ordered by the strings
  \<^verbatim>\<open>out\<close>; it is the list of its elements in that order.  The field \<^verbatim>\<open>t\<close> is
  \<open>t_col\<close> and the field \<^verbatim>\<open>range\<close> is \<open>range_col\<close>.
\<close>

record column =
  t_col :: type
  weight :: float
  sensitivity :: classification
  width :: nat
  unique :: "string set"
  ranges :: "Range list"
  range_col :: Range
  graph :: Domain
  data :: "string list"

text \<open>
  \<^verbatim>\<open>Table::mutations(value, col, randomize)\<close>.  \<open>range_mutations\<close> is the block for
  integer columns; \<^verbatim>\<open>value[0]\<close> of an empty \<^verbatim>\<open>std::string\<close> is the terminating zero
  character, which is not a bracket.  \<open>mutations_list\<close> is the body up to the shuffle.
\<close>

definition range_mutations :: "string \<Rightarrow> column \<Rightarrow> error + string list" where
  "range_mutations val col =
     (if val \<noteq> [] \<and> hd val = CHR ''['' then
        (case Range_of_string val of
           Inl e \<Rightarrow> Inl e
         | Inr r \<Rightarrow> Inr (map out (filter (\<lambda>rg. in_range rg r) (ranges col))))
      else
        (case stoi val of
           Inl e \<Rightarrow> Inl e
         | Inr number \<Rightarrow>
             Inr (map out (filter (\<lambda>rg. in_value rg (size_t_of_int number)) (ranges col)))))"

definition mutations_list :: "string \<Rightarrow> column \<Rightarrow> error + string list" where
  "mutations_list val col =
     (let ret = [''*''] @
                (if \<not> empty_domain (graph col) then find_path (graph col) val
                 else if val \<noteq> [] then [val]
                 else [])
      in case (if t_col col = integer then range_mutations val col else Inr []) of
           Inl e \<Rightarrow> Inl e
         | Inr rs \<Rightarrow> Inr (ret @ rs))"

definition mutations :: "string \<Rightarrow> column \<Rightarrow> bool \<Rightarrow> rng \<Rightarrow> error + (string list \<times> rng)" where
  "mutations val col randomize g =
     (case mutations_list val col of
        Inl e \<Rightarrow> Inl e
      | Inr ret \<Rightarrow>
          (if randomize then Inr (shuffle (length ret) ret g) else Inr (ret, g)))"

text \<open>
  \<^verbatim>\<open>class Table\<close>: the header, the number of rows and the \<^verbatim>\<open>std::map\<close> from column
  names to columns (the field \<^verbatim>\<open>data\<close>, here \<open>data_tbl\<close>), as the list of its entries
  in the order of iteration.
\<close>

record Table =
  header :: "string list"
  rows :: nat
  data_tbl :: "(string \<times> column) list"

definition columns :: "Table \<Rightarrow> nat" where
  "columns tb = length (header tb)"

text \<open>\<^verbatim>\<open>get_column(c)\<close> and \<^verbatim>\<open>index(c)\<close>: \<^verbatim>\<open>data.at(header[c])\<close>.\<close>

definition get_column :: "Table \<Rightarrow> nat \<Rightarrow> error + column" where
  "get_column tb c =
     (if length (header tb) \<le> c then Inl OutOfBounds
      else (case map_of (data_tbl tb) (header tb ! c) of
              None \<Rightarrow> Inl OutOfRange
            | Some col \<Rightarrow> Inr col))"

text \<open>\<^verbatim>\<open>index(r, c)\<close>: \<^verbatim>\<open>data.at(header[c]).data[r]\<close>.\<close>

definition index :: "Table \<Rightarrow> nat \<Rightarrow> nat \<Rightarrow> error + string" where
  "index tb r c =
     (case get_column tb c of
        Inl e \<Rightarrow> Inl e
      | Inr col \<Rightarrow> if length (data col) \<le> r then Inl OutOfBounds else Inr (data col ! r))"

text \<open>The first failure of a list of results, or all the values.\<close>

fun sequence :: "(error + 'a) list \<Rightarrow> error + 'a list" where
  "sequence [] = Inr []"
| "sequence (x # xs) =
     (case x of
        Inl e \<Rightarrow> Inl e
      | Inr v \<Rightarrow> (case sequence xs of Inl e \<Rightarrow> Inl e | Inr vs \<Rightarrow> Inr (v # vs)))"

text \<open>
  \<^verbatim>\<open>RowIterator::construct_view\<close>: the cells of row \<open>r\<close>, one for each name of the
  header.  A loop \<^verbatim>\<open>for (iter = row_begin(); iter != row_end(); ++iter)\<close> visits the rows
  \<open>0, \<dots>, rows - 1\<close>.  (The increment that reaches \<^verbatim>\<open>row_end()\<close> builds one more
  view, from the element after the last of each column; no code reads that view and the
  model leaves it out.)
\<close>

definition construct_view :: "Table \<Rightarrow> nat \<Rightarrow> error + string list" where
  "construct_view tb r = sequence (map (\<lambda>x. index tb r x) [0..<length (header tb)])"

text \<open>
  \<^verbatim>\<open>Table::get_distinct\<close>, without its verbose printing: the product, on
  \<^verbatim>\<open>size_t\<close>, of the numbers of mutations of the cells of every entry of the map.
\<close>

fun distinct_cells :: "column \<Rightarrow> string list \<Rightarrow> nat \<Rightarrow> error + nat" where
  "distinct_cells col [] tot = Inr tot"
| "distinct_cells col (e # es) tot =
     (case mutations_list e col of
        Inl err \<Rightarrow> Inl err
      | Inr mut \<Rightarrow> distinct_cells col es ((tot * length mut) mod 2 ^ 64))"

fun distinct_columns :: "(string \<times> column) list \<Rightarrow> nat \<Rightarrow> error + nat" where
  "distinct_columns [] tot = Inr tot"
| "distinct_columns (col # cols) tot =
     (case distinct_cells (snd col) (data (snd col)) tot of
        Inl err \<Rightarrow> Inl err
      | Inr tot' \<Rightarrow> distinct_columns cols tot')"

definition get_distinct :: "Table \<Rightarrow> error + nat" where
  "get_distinct tb =
     (case distinct_columns (data_tbl tb) 1 of
        Inl e \<Rightarrow> Inl e
      | Inr tot \<Rightarrow>
          (case get_column tb 0 of
             Inl e \<Rightarrow> Inl e
           | Inr first \<Rightarrow>
               Inr (if (length (header tb) * length (data first)) mod 2 ^ 64 > 64
                    then SIZE_MAX else tot)))"

section \<open>metrics.h\<close>

text \<open>\<^verbatim>\<open>enum metric {md, c}\<close>; the constant \<^verbatim>\<open>c\<close> is \<open>c_metric\<close> here.\<close>

datatype metric = md | c_metric

text \<open>
  The global variables the metrics read and write: the switch \<^verbatim>\<open>shared::cache\<close>, the two
  caches and the counter of early exits; and the two random generators and the colour
  mode of the title of \<^verbatim>\<open>shared.h\<close>.
\<close>

record globals =
  cache :: bool
  score_cache :: "float tree"
  match_cache :: "nat list tree"
  match_trims :: nat
  rng_shared :: rng
  gen_shared :: rng
  mode_shared :: nat

text \<open>\<^verbatim>\<open>shared::cache && score_cache.in(row)\<close>: the tree is asked, and counts the answer,
  only when the switch is on.\<close>

definition score_cached :: "globals \<Rightarrow> string list \<Rightarrow> error + (bool \<times> globals)" where
  "score_cached g row =
     (if cache g then
        (case tree_in (Finite 0) (score_cache g) row SIZE_MAX of
           Inl e \<Rightarrow> Inl e
         | Inr (i, tr) \<Rightarrow> Inr (i, g\<lparr>score_cache := tr\<rparr>))
      else Inr (False, g))"

text \<open>\<^verbatim>\<open>if (shared::cache) score_cache.add(row, row_score)\<close>.\<close>

definition score_store :: "globals \<Rightarrow> string list \<Rightarrow> float \<Rightarrow> error + globals" where
  "score_store g row row_score =
     (if cache g then
        (case tree_add (Finite 0) (score_cache g) row row_score SIZE_MAX of
           Inl e \<Rightarrow> Inl e
         | Inr tr \<Rightarrow> Inr (g\<lparr>score_cache := tr\<rparr>))
      else Inr g)"

text \<open>
  \<^verbatim>\<open>minimal_distortion(w, o, best)\<close>.  \<open>md_row\<close> is the loop over the columns of one
  row, \<open>md_rows\<close> the loop over the rows; the parameter \<^verbatim>\<open>best\<close> is never read.
\<close>

fun md_row :: "Table \<Rightarrow> Table \<Rightarrow> nat \<Rightarrow> string list \<Rightarrow> nat list \<Rightarrow> float \<Rightarrow> error + float" where
  "md_row w orig r row [] row_score = Inr row_score"
| "md_row w orig r row (col # cols) row_score =
     (case index orig r col of
        Inl e \<Rightarrow> Inl e
      | Inr original \<Rightarrow>
          (if length row \<le> col then Inl OutOfBounds
           else if original \<noteq> row ! col then
             (case get_column w col of
                Inl e \<Rightarrow> Inl e
              | Inr cl \<Rightarrow> md_row w orig r row cols (fadd row_score (weight cl)))
           else md_row w orig r row cols row_score))"

fun md_rows :: "Table \<Rightarrow> Table \<Rightarrow> nat list \<Rightarrow> float \<Rightarrow> globals \<Rightarrow> error + (float \<times> globals)" where
  "md_rows w orig [] score g = Inr (score, g)"
| "md_rows w orig (r # rs) score g =
     (case construct_view w r of
        Inl e \<Rightarrow> Inl e
      | Inr row \<Rightarrow>
          (case score_cached g row of
             Inl e \<Rightarrow> Inl e
           | Inr (hit, g1) \<Rightarrow>
               if hit then
                 (case tree_get (score_cache g1) row SIZE_MAX of
                    Inl e \<Rightarrow> Inl e
                  | Inr v \<Rightarrow> md_rows w orig rs (fadd score v) g1)
               else
                 (case md_row w orig r row [0..<columns w] (Finite 0) of
                    Inl e \<Rightarrow> Inl e
                  | Inr row_score \<Rightarrow>
                      (case score_store g1 row row_score of
                         Inl e \<Rightarrow> Inl e
                       | Inr g2 \<Rightarrow> md_rows w orig rs (fadd score row_score) g2))))"

definition minimal_distortion :: "Table \<Rightarrow> Table \<Rightarrow> globals \<Rightarrow> error + (float \<times> globals)" where
  "minimal_distortion w orig g = md_rows w orig [0..<rows w] (Finite 0) g"

text \<open>
  \<^verbatim>\<open>certainty_score(w, o, best)\<close>.  \<open>cs_cell\<close> is the penalty of a changed cell before
  the weight is applied (\<^verbatim>\<open>col_score\<close> is \<^verbatim>\<open>0.0\<close> when the penalty is added to it, so
  the sum is the penalty), \<open>cs_row\<close> the loop over the columns, \<open>cs_rows\<close> the loop
  over the rows; the parameter \<^verbatim>\<open>best\<close> is never read.  \<^verbatim>\<open>mod[0]\<close> of an empty view
  reads the terminating zero of the cell's string.
\<close>

definition cs_cell :: "Table \<Rightarrow> nat \<Rightarrow> string \<Rightarrow> error + float" where
  "cs_cell w col modif =
     (if modif = ''*'' then Inr (Finite 1)
      else
        (case get_column w col of
           Inl e \<Rightarrow> Inl e
         | Inr cl \<Rightarrow>
             if \<not> empty_domain (graph cl) \<and> find_path (graph cl) modif \<noteq> [] then
               Inr (fdiv (of_size (breadth modif (graph cl))) (of_size (card (unique cl))))
             else if t_col cl = integer \<and> modif \<noteq> [] \<and> hd modif = CHR ''['' then
               (case Range_of_string modif of
                  Inl e \<Rightarrow> Inl e
                | Inr rg \<Rightarrow>
                    Inr (fdiv (of_size (range_width rg)) (of_size (range_width (range_col cl)))))
             else Inl InvalidModification))"

fun cs_row :: "Table \<Rightarrow> Table \<Rightarrow> nat \<Rightarrow> string list \<Rightarrow> nat list \<Rightarrow> float \<Rightarrow> error + float" where
  "cs_row w orig r row [] row_score = Inr row_score"
| "cs_row w orig r row (col # cols) row_score =
     (case index orig r col of
        Inl e \<Rightarrow> Inl e
      | Inr original \<Rightarrow>
          (if length row \<le> col then Inl OutOfBounds
           else if original = row ! col then cs_row w orig r row cols row_score
           else
             (case cs_cell w col (row ! col) of
                Inl e \<Rightarrow> Inl e
              | Inr col_score \<Rightarrow>
                  (case get_column orig col of
                     Inl e \<Rightarrow> Inl e
                   | Inr ocl \<Rightarrow>
                       cs_row w orig r row cols (fadd row_score (fmul col_score (weight ocl)))))))"

fun cs_rows :: "Table \<Rightarrow> Table \<Rightarrow> nat list \<Rightarrow> float \<Rightarrow> globals \<Rightarrow> error + (float \<times> globals)" where
  "cs_rows w orig [] score g = Inr (score, g)"
| "cs_rows w orig (r # rs) score g =
     (case construct_view w r of
        Inl e \<Rightarrow> Inl e
      | Inr row \<Rightarrow>
          (case score_cached g row of
             Inl e \<Rightarrow> Inl e
           | Inr (hit, g1) \<Rightarrow>
               if hit then
                 (case tree_get (score_cache g1) row SIZE_MAX of
                    Inl e \<Rightarrow> Inl e
                  | Inr v \<Rightarrow> cs_rows w orig rs (fadd score v) g1)
               else
                 (case cs_row w orig r row [0..<columns w] (Finite 0) of
                    Inl e \<Rightarrow> Inl e
                  | Inr row_score \<Rightarrow>
                      (case score_store g1 row row_score of
                         Inl e \<Rightarrow> Inl e
                       | Inr g2 \<Rightarrow> cs_rows w orig rs (fadd score row_score) g2))))"

definition certainty_score :: "Table \<Rightarrow> Table \<Rightarrow> globals \<Rightarrow> error + (float \<times> globals)" where
  "certainty_score w orig g = cs_rows w orig [0..<rows w] (Finite 0) g"

text \<open>
  \<^verbatim>\<open>match_row(o, row, c)\<close>.  \<open>field_matches\<close> is the body of the loop over the fields
  \<open>x\<close> (\<open>True\<close> where the source says \<^verbatim>\<open>continue\<close>), \<open>fields_match\<close> that loop for
  \<open>x = 0, \<dots>, c\<close>, \<open>matching_rows\<close> the loop over the rows of the original table.
\<close>

definition field_matches :: "Table \<Rightarrow> string list \<Rightarrow> string list \<Rightarrow> nat \<Rightarrow> error + bool" where
  "field_matches orig row compare x =
     (if length row \<le> x \<or> length compare \<le> x then Inl OutOfBounds
      else if row ! x = compare ! x \<or> row ! x = ''*'' then Inr True
      else
        (case get_column orig x of
           Inl e \<Rightarrow> Inl e
         | Inr cl \<Rightarrow>
             if sensitivity cl \<noteq> quasi then Inr True
             else if \<not> empty_domain (graph cl) then
               Inr (compare ! x \<in> set (find_path (graph cl) (row ! x))
                    \<or> row ! x \<in> set (find_path (graph cl) (compare ! x)))
             else if t_col cl = integer \<and> row ! x \<noteq> [] \<and> hd (row ! x) = CHR ''['' then
               (case Range_of_string (row ! x) of
                  Inl e \<Rightarrow> Inl e
                | Inr rg \<Rightarrow>
                    (case atoi (compare ! x) of
                       Inl e \<Rightarrow> Inl e
                     | Inr n \<Rightarrow> Inr (in_value rg (size_t_of_int n))))
             else Inr False))"

fun fields_match :: "Table \<Rightarrow> string list \<Rightarrow> string list \<Rightarrow> nat list \<Rightarrow> error + bool" where
  "fields_match orig row compare [] = Inr True"
| "fields_match orig row compare (x # xs) =
     (case field_matches orig row compare x of
        Inl e \<Rightarrow> Inl e
      | Inr m \<Rightarrow> if m then fields_match orig row compare xs else Inr False)"

fun matching_rows :: "Table \<Rightarrow> string list \<Rightarrow> nat \<Rightarrow> nat list \<Rightarrow> nat list \<Rightarrow> error + nat list" where
  "matching_rows orig row cc [] matches = Inr matches"
| "matching_rows orig row cc (r # rs) matches =
     (case construct_view orig r of
        Inl e \<Rightarrow> Inl e
      | Inr compare \<Rightarrow>
          (case fields_match orig row compare [0..<Suc cc] of
             Inl e \<Rightarrow> Inl e
           | Inr m \<Rightarrow> matching_rows orig row cc rs (if m then matches @ [r] else matches)))"

definition match_row :: "Table \<Rightarrow> string list \<Rightarrow> nat \<Rightarrow> globals \<Rightarrow> error + (nat list \<times> globals)" where
  "match_row orig row cc g =
     (case (if cache g then
              (case tree_in [] (match_cache g) row cc of
                 Inl e \<Rightarrow> Inl e
               | Inr (i, tr) \<Rightarrow> Inr (i, g\<lparr>match_cache := tr\<rparr>))
            else Inr (False, g)) of
        Inl e \<Rightarrow> Inl e
      | Inr (hit, g1) \<Rightarrow>
          if hit then
            (case tree_get (match_cache g1) row cc of
               Inl e \<Rightarrow> Inl e
             | Inr matches \<Rightarrow> Inr (matches, g1))
          else
            (case matching_rows orig row cc [0..<rows orig] [] of
               Inl e \<Rightarrow> Inl e
             | Inr matches \<Rightarrow>
                 if cache g1 then
                   (case tree_add [] (match_cache g1) row matches cc of
                      Inl e \<Rightarrow> Inl e
                    | Inr tr \<Rightarrow> Inr (matches, g1\<lparr>match_cache := tr\<rparr>))
                 else Inr (matches, g1)))"

text \<open>
  \<^verbatim>\<open>k_tree(matches, tree, ks, x)\<close>.  \<open>emplace_path\<close> is the loop that records a complete
  path: \<^verbatim>\<open>ks[i++].emplace(x)\<close> for every \<open>x\<close> of \<^verbatim>\<open>tree\<close>.  The source pushes the
  option on \<^verbatim>\<open>tree\<close> before the recursive call and pops it after; \<^verbatim>\<open>ks\<close> is returned.
  The search starts at \<open>x = 0\<close> and stops at \<open>x = length matches\<close>, so \<open>x\<close> never
  exceeds it.
\<close>

fun emplace_path :: "nat list \<Rightarrow> nat \<Rightarrow> nat set list \<Rightarrow> nat set list" where
  "emplace_path [] i ks = ks"
| "emplace_path (x # xs) i ks = emplace_path xs (i + 1) (ks[i := insert x (ks ! i)])"

function k_tree :: "nat list list \<Rightarrow> nat list \<Rightarrow> nat set list \<Rightarrow> nat \<Rightarrow> nat set list" where
  "k_tree matches tree ks x =
     (if x = length matches then emplace_path tree 0 ks
      else if length matches < x then ks
      else
        fold (\<lambda>option ks'.
                if option \<in> set tree then ks'
                else k_tree matches (tree @ [option]) ks' (x + 1))
             (matches ! x) ks)"
  by pat_completeness auto
termination
  by (relation "measure (\<lambda>(matches, tree, ks, x). length matches - x)") auto

text \<open>
  \<^verbatim>\<open>k_anonymity(w, o, k, c)\<close>.  \<open>k_matches\<close> is its first loop, which leaves with
  \<^verbatim>\<open>false\<close> (\<open>None\<close> here) at the first row with fewer than \<open>k\<close> matches.
\<close>

definition default_column :: "Table \<Rightarrow> nat \<Rightarrow> nat" where
  "default_column w cc = (if cc = SIZE_MAX then (columns w + 2 ^ 64 - 1) mod 2 ^ 64 else cc)"

fun k_matches :: "Table \<Rightarrow> Table \<Rightarrow> nat \<Rightarrow> nat \<Rightarrow> nat list \<Rightarrow> nat list list \<Rightarrow> globals
    \<Rightarrow> error + (nat list list option \<times> globals)" where
  "k_matches w orig k cc [] matches g = Inr (Some matches, g)"
| "k_matches w orig k cc (r # rs) matches g =
     (case construct_view w r of
        Inl e \<Rightarrow> Inl e
      | Inr row \<Rightarrow>
          (case match_row orig row cc g of
             Inl e \<Rightarrow> Inl e
           | Inr (match, g1) \<Rightarrow>
               if length match < k then Inr (None, g1\<lparr>match_trims := match_trims g1 + 1\<rparr>)
               else k_matches w orig k cc rs (matches @ [match]) g1))"

definition k_anonymity :: "Table \<Rightarrow> Table \<Rightarrow> nat \<Rightarrow> nat \<Rightarrow> globals \<Rightarrow> error + (bool \<times> globals)" where
  "k_anonymity w orig k cc g =
     (case k_matches w orig k (default_column w cc) [0..<rows w] [] g of
        Inl e \<Rightarrow> Inl e
      | Inr (None, g1) \<Rightarrow> Inr (False, g1)
      | Inr (Some matches, g1) \<Rightarrow>
          Inr (list_all (\<lambda>solutions. \<not> card solutions < k)
                 (k_tree matches [] (replicate (length matches) {}) 0), g1))"

text \<open>\<^verbatim>\<open>av_k_anonymity(w, o, c)\<close>; \<open>av_matches\<close> is its first loop.\<close>

fun av_matches :: "Table \<Rightarrow> Table \<Rightarrow> nat \<Rightarrow> nat list \<Rightarrow> nat list list \<Rightarrow> globals
    \<Rightarrow> error + (nat list list \<times> globals)" where
  "av_matches w orig cc [] matches g = Inr (matches, g)"
| "av_matches w orig cc (r # rs) matches g =
     (case construct_view w r of
        Inl e \<Rightarrow> Inl e
      | Inr row \<Rightarrow>
          (case match_row orig row cc g of
             Inl e \<Rightarrow> Inl e
           | Inr (match, g1) \<Rightarrow> av_matches w orig cc rs (matches @ [match]) g1))"

definition av_k_anonymity :: "Table \<Rightarrow> Table \<Rightarrow> nat \<Rightarrow> globals \<Rightarrow> error + (float \<times> globals)" where
  "av_k_anonymity w orig cc g =
     (case av_matches w orig (default_column w cc) [0..<rows w] [] g of
        Inl e \<Rightarrow> Inl e
      | Inr (matches, g1) \<Rightarrow>
          (let tree = k_tree matches [] (replicate (length matches) {}) 0;
               score = foldl (\<lambda>s solutions. fadd s (of_size (card solutions))) (Finite 0) tree
           in Inr (fdiv score (of_size (length tree)), g1)))"

section \<open>mg.h\<close>

text \<open>
  \<^verbatim>\<open>class MinGen\<close>.  Its members \<^verbatim>\<open>working\<close>, \<^verbatim>\<open>original\<close>, \<^verbatim>\<open>k\<close>, \<^verbatim>\<open>m\<close>,
  \<^verbatim>\<open>max\<close>, \<^verbatim>\<open>states\<close>, \<^verbatim>\<open>tables\<close>, \<^verbatim>\<open>view\<close> and \<^verbatim>\<open>best\<close> carry the suffix
  \<open>_mg\<close> here.  \<^verbatim>\<open>tables\<close> is a \<^verbatim>\<open>std::multiset<Table>\<close>, here the list of its
  elements in the order they were put in.  \<open>stdout_mg\<close> is what the object has printed.
\<close>

datatype printed = Notice string | Stats "Table list" nat nat nat float

record MinGen =
  working_mg :: Table
  original_mg :: Table
  k_mg :: nat
  m_mg :: metric
  max_mg :: nat
  states_mg :: nat
  tables_mg :: "Table list"
  view_mg :: Table
  best_mg :: float
  stdout_mg :: "printed list"

definition empty_table :: Table where
  "empty_table = \<lparr>header = [], rows = 0, data_tbl = []\<rparr>"

text \<open>\<^verbatim>\<open>reset()\<close>, and the constructor \<^verbatim>\<open>MinGen(o)\<close>, which initialises the members with their
  defaults and calls \<^verbatim>\<open>reset()\<close>.\<close>

definition reset :: "MinGen \<Rightarrow> MinGen" where
  "reset s = s\<lparr>max_mg := SIZE_MAX, states_mg := 0, tables_mg := [], best_mg := PlusInf\<rparr>"

definition MinGen_new :: "Table \<Rightarrow> MinGen" where
  "MinGen_new orig =
     reset \<lparr>working_mg = empty_table, original_mg = orig, k_mg = 2, m_mg = md, max_mg = SIZE_MAX,
            states_mg = 0, tables_mg = [], view_mg = empty_table, best_mg = PlusInf, stdout_mg = []\<rparr>"

text \<open>The metric the object is configured with:
  \<^verbatim>\<open>m == metric::md ? minimal_distortion(...) : certainty_score(...)\<close>.\<close>

definition configured_score :: "MinGen \<Rightarrow> globals \<Rightarrow> error + (float \<times> globals)" where
  "configured_score s g =
     (if m_mg s = md then minimal_distortion (working_mg s) (original_mg s) g
      else certainty_score (working_mg s) (original_mg s) g)"

text \<open>\<^verbatim>\<open>score_results()\<close>.\<close>

definition score_results :: "MinGen \<Rightarrow> globals \<Rightarrow> error + (MinGen \<times> globals)" where
  "score_results s g =
     (let s1 = s\<lparr>states_mg := states_mg s + 1\<rparr> in
      case configured_score s1 g of
        Inl e \<Rightarrow> Inl e
      | Inr (score, g1) \<Rightarrow>
          (let s2 = (if best_mg s1 = PlusInf \<or> flt score (best_mg s1)
                     then s1\<lparr>best_mg := score, tables_mg := [], view_mg := working_mg s1\<rparr>
                     else s1)
           in Inr (if feq score (best_mg s2)
                   then s2\<lparr>tables_mg := tables_mg s2 @ [working_mg s2]\<rparr> else s2, g1)))"

text \<open>
  The test at the last row of a column, as C++ parses it: \<^verbatim>\<open><=\<close> binds tighter than
  \<^verbatim>\<open>?:\<close>, so the expression is
  \<^verbatim>\<open>(m == c ? certainty_score(...) : (minimal_distortion(...) <= best)) && k_anonymity(...)\<close>.
  For the certainty metric the left operand is the score itself, converted to
  \<^verbatim>\<open>bool\<close>: true when it is not zero (also when it is NaN).  \<^verbatim>\<open>k_anonymity\<close> is called only when the left
  operand is true.
\<close>

definition prune_test :: "MinGen \<Rightarrow> nat \<Rightarrow> globals \<Rightarrow> error + (bool \<times> globals)" where
  "prune_test s col g =
     (case (if m_mg s = c_metric then
              (case certainty_score (working_mg s) (original_mg s) g of
                 Inl e \<Rightarrow> Inl e
               | Inr (score, g1) \<Rightarrow> Inr (score \<noteq> Finite 0, g1))
            else
              (case minimal_distortion (working_mg s) (original_mg s) g of
                 Inl e \<Rightarrow> Inl e
               | Inr (score, g1) \<Rightarrow> Inr (fle score (best_mg s), g1))) of
        Inl e \<Rightarrow> Inl e
      | Inr (left, g1) \<Rightarrow>
          if left then k_anonymity (working_mg s) (original_mg s) (k_mg s) col g1
          else Inr (False, g1))"

text \<open>The assignment \<^verbatim>\<open>cell = v\<close> through the reference to
  \<^verbatim>\<open>working.index(col).data[row]\<close>.\<close>

definition set_cell :: "Table \<Rightarrow> nat \<Rightarrow> nat \<Rightarrow> string \<Rightarrow> Table" where
  "set_cell tb row col v =
     tb\<lparr>data_tbl := map (\<lambda>(name, cl). if name = header tb ! col
                                       then (name, cl\<lparr>data := (data cl)[row := v]\<rparr>)
                                       else (name, cl)) (data_tbl tb)\<rparr>"

text \<open>
  \<^verbatim>\<open>anonymize_worker(row, col)\<close>, with a bound \<open>fuel\<close> on the depth of the recursion
  (the source recurses at most once for every cell and column).  The function is given in
  three parts, each with the function to call for a recursive call as the parameter
  \<open>rec\<close>: \<open>try_mutation\<close> is the body of the loop over the mutations of the cell
  from the assignment \<^verbatim>\<open>cell = mut\<close> to the recursive call, \<open>worker_loop\<close> is that
  loop (a \<^verbatim>\<open>return\<close> inside the loop ends the function, so the loop just stops there),
  and \<open>worker_body\<close> is the body of the function.
\<close>

type_synonym worker = "nat \<Rightarrow> nat \<Rightarrow> MinGen \<Rightarrow> globals \<Rightarrow> error + (MinGen \<times> globals)"

definition try_mutation :: "worker \<Rightarrow> nat \<Rightarrow> nat \<Rightarrow> string \<Rightarrow> MinGen \<Rightarrow> globals
    \<Rightarrow> error + (MinGen \<times> globals)" where
  "try_mutation rec row col mut s1 g =
     (let s2 = s1\<lparr>working_mg := set_cell (working_mg s1) row col mut\<rparr> in
      case get_column (working_mg s2) col of
        Inl e \<Rightarrow> Inl e
      | Inr cl \<Rightarrow>
          if row = (length (data cl) + 2 ^ 64 - 1) mod 2 ^ 64 then
            (case prune_test s2 col g of
               Inl e \<Rightarrow> Inl e
             | Inr (pass, g1) \<Rightarrow>
                 if pass then
                   (if col = (length (header (working_mg s2)) + 2 ^ 64 - 1) mod 2 ^ 64
                    then score_results s2 g1
                    else rec 0 (col + 1) s2 g1)
                 else Inr (s2, g1))
          else rec (row + 1) col s2 g)"

fun worker_loop :: "worker \<Rightarrow> nat \<Rightarrow> nat \<Rightarrow> string \<Rightarrow> string list \<Rightarrow> MinGen \<Rightarrow> globals
    \<Rightarrow> error + (MinGen \<times> globals)" where
  "worker_loop rec row col copy [] s g = Inr (s, g)"
| "worker_loop rec row col copy (mut # muts) s g =
     (if max_mg s \<le> states_mg s + 1 then Inr (s\<lparr>states_mg := states_mg s + 1\<rparr>, g)
      else
        (case try_mutation rec row col mut (s\<lparr>states_mg := states_mg s + 1\<rparr>) g of
           Inl e \<Rightarrow> Inl e
         | Inr (s3, g3) \<Rightarrow>
             worker_loop rec row col copy muts
               (s3\<lparr>working_mg := set_cell (working_mg s3) row col copy\<rparr>) g3))"

definition worker_body :: "worker \<Rightarrow> worker" where
  "worker_body rec row col s g =
     (if states_mg s = max_mg s then Inr (s, g)
      else if col = columns (working_mg s) then score_results s g
      else
        (case get_column (working_mg s) col of
           Inl e \<Rightarrow> Inl e
         | Inr cl \<Rightarrow>
             if sensitivity cl \<noteq> quasi then rec row (col + 1) s g
             else if length (data cl) \<le> row then Inl OutOfBounds
             else
               (case mutations (data cl ! row) cl (max_mg s \<noteq> SIZE_MAX) (rng_shared g) of
                  Inl e \<Rightarrow> Inl e
                | Inr (muts, r) \<Rightarrow>
                    worker_loop rec row col (data cl ! row) muts s (g\<lparr>rng_shared := r\<rparr>))))"

primrec anonymize_worker :: "nat \<Rightarrow> worker" where
  "anonymize_worker 0 = (\<lambda>row col s g. Inl OutOfFuel)"
| "anonymize_worker (Suc fuel) = worker_body (anonymize_worker fuel)"

text \<open>
  \<^verbatim>\<open>shared::pick_mode()\<close>: a new colour mode for the title is drawn from
  \<^verbatim>\<open>shared::rng\<close> until it differs from the old one; \<open>fuel\<close> bounds the number of draws.
\<close>

primrec pick_mode :: "nat \<Rightarrow> nat \<Rightarrow> globals \<Rightarrow> error + globals" where
  "pick_mode 0 old g = Inl OutOfFuel"
| "pick_mode (Suc fuel) old g =
     (case draw 1 6 (rng_shared g) of
        Inl e \<Rightarrow> Inl e
      | Inr (v, r) \<Rightarrow>
          if v = old then pick_mode fuel old (g\<lparr>rng_shared := r, mode_shared := v\<rparr>)
          else Inr (g\<lparr>rng_shared := r, mode_shared := v\<rparr>))"

text \<open>
  \<^verbatim>\<open>MinGen::anonymize(k_val, m_val, iters)\<close>.  The worker runs to its end before the
  statistics are printed, on the caller's thread or on another one; the frames that the
  caller draws while it waits are not modelled, and the statistics are recorded as the
  values \<^verbatim>\<open>print_stats\<close> is given (the tables, \<^verbatim>\<open>max\<close>, the number of
  configurations, \<^verbatim>\<open>states\<close> and \<^verbatim>\<open>best\<close>).
\<close>

definition MinGen_anonymize :: "nat \<Rightarrow> metric \<Rightarrow> nat \<Rightarrow> nat \<Rightarrow> MinGen \<Rightarrow> globals
    \<Rightarrow> error + (MinGen \<times> globals)" where
  "MinGen_anonymize k_val m_val iters fuel s g =
     (let s1 = s\<lparr>k_mg := k_val, m_mg := m_val, max_mg := iters, working_mg := original_mg s\<rparr> in
      case k_anonymity (working_mg s1) (original_mg s1) (k_mg s1)
             ((columns (original_mg s1) + 2 ^ 64 - 1) mod 2 ^ 64) g of
        Inl e \<Rightarrow> Inl e
      | Inr (anonymous, g1) \<Rightarrow>
          if anonymous then
            Inr (s1\<lparr>stdout_mg := stdout_mg s1 @ [Notice ''Already meets K-Anonymity Threshold!'']\<rparr>, g1)
          else
            (case get_distinct (working_mg s1) of
               Inl e \<Rightarrow> Inl e
             | Inr tot \<Rightarrow>
                 (case pick_mode fuel (mode_shared g1) g1 of
                    Inl e \<Rightarrow> Inl e
                  | Inr g2 \<Rightarrow>
                      (case anonymize_worker fuel 0 0 s1 g2 of
                         Inl e \<Rightarrow> Inl e
                       | Inr (s2, g3) \<Rightarrow>
                           Inr (reset (s2\<lparr>stdout_mg := stdout_mg s2 @
                                  [Stats (tables_mg s2) (max_mg s2) tot (states_mg s2) (best_mg s2)]\<rparr>),
                                g3)))))"

section \<open>table.h: random tables\<close>

text \<open>
  \<^verbatim>\<open>Table::random()\<close>: every cell of every quasi column of a copy is replaced by the first
  of its shuffled mutations.  \<open>random_cells\<close> is the loop over the rows of the column
  at index \<open>col\<close>, \<open>random_columns\<close> the loop over the columns.
\<close>

fun random_cells :: "nat \<Rightarrow> nat list \<Rightarrow> Table \<Rightarrow> rng \<Rightarrow> error + (Table \<times> rng)" where
  "random_cells col [] copy g = Inr (copy, g)"
| "random_cells col (row # rws) copy g =
     (case get_column copy col of
        Inl e \<Rightarrow> Inl e
      | Inr cl \<Rightarrow>
          if length (data cl) \<le> row then Inl OutOfBounds
          else
            (case mutations (data cl ! row) cl True g of
               Inl e \<Rightarrow> Inl e
             | Inr (muts, g1) \<Rightarrow> random_cells col rws (set_cell copy row col (hd muts)) g1))"

fun random_columns :: "nat list \<Rightarrow> Table \<Rightarrow> rng \<Rightarrow> error + (Table \<times> rng)" where
  "random_columns [] copy g = Inr (copy, g)"
| "random_columns (col # cols) copy g =
     (case get_column copy col of
        Inl e \<Rightarrow> Inl e
      | Inr cl \<Rightarrow>
          if sensitivity cl \<noteq> quasi then random_columns cols copy g
          else
            (case random_cells col [0..<length (data cl)] copy g of
               Inl e \<Rightarrow> Inl e
             | Inr (copy1, g1) \<Rightarrow> random_columns cols copy1 g1))"

definition random_table :: "Table \<Rightarrow> rng \<Rightarrow> error + (Table \<times> rng)" where
  "random_table tb g = random_columns [0..<length (header tb)] tb g"

section \<open>ga.h\<close>

text \<open>
  \<^verbatim>\<open>struct instance\<close> (fields \<^verbatim>\<open>s\<close> and \<^verbatim>\<open>table\<close>, here \<open>instance_ga\<close> with \<open>s_inst\<close> and
  \<open>table_inst\<close>) and \<^verbatim>\<open>class GeneticAlgorithm\<close>,
  whose members carry the suffix \<open>_ga\<close> here.  \<^verbatim>\<open>k\<close> is a float that holds the
  \<^verbatim>\<open>size_t\<close> given to \<^verbatim>\<open>anonymize\<close>; it is that natural number here, converted
  where the source computes with it.  The two
  \<^verbatim>\<open>std::uniform_int_distribution<>\<close> members \<^verbatim>\<open>roll\<close> and \<^verbatim>\<open>mutations\<close> are the
  pairs of their bounds.  \<^verbatim>\<open>generation\<close> is a \<^verbatim>\<open>std::multiset\<close> ordered by descending
  \<^verbatim>\<open>s\<close>, here the list of its elements in that order.
\<close>

record instance_ga =
  s_inst :: float
  table_inst :: Table

record GeneticAlgorithm =
  original_ga :: Table
  k_ga :: nat
  best_ga :: float
  m_ga :: metric
  max_ga :: nat
  population_ga :: nat
  states_ga :: nat
  cutoff_ga :: nat
  m_rate_ga :: nat
  cells_ga :: nat
  iter_ga :: nat
  roll_ga :: "nat \<times> nat"
  mutations_ga :: "nat \<times> nat"
  view_ga :: instance_ga
  generation_ga :: "instance_ga list"
  stdout_ga :: "printed list"

text \<open>
  The constructor \<^verbatim>\<open>GeneticAlgorithm(o)\<close>.  The members are initialised in the order of
  their declaration: \<^verbatim>\<open>m_rate = 10\<close> first, then \<^verbatim>\<open>roll\<close> by default (from 0 to the
  largest \<^verbatim>\<open>int\<close>) and \<^verbatim>\<open>mutations\<close> with the bounds \<^verbatim>\<open>(0, 100 + m_rate)\<close>; the
  body then counts the cells.
\<close>

definition GeneticAlgorithm_new :: "Table \<Rightarrow> error + GeneticAlgorithm" where
  "GeneticAlgorithm_new orig =
     (case get_column orig 0 of
        Inl e \<Rightarrow> Inl e
      | Inr first \<Rightarrow>
          Inr \<lparr>original_ga = orig, k_ga = 2, best_ga = PlusInf, m_ga = md, max_ga = 1000,
               population_ga = 100, states_ga = 0, cutoff_ga = 10, m_rate_ga = 10,
               cells_ga = (columns orig * length (data first)) mod 2 ^ 64, iter_ga = 0,
               roll_ga = (0, 2 ^ 31 - 1), mutations_ga = (0, 100 + 10),
               view_ga = \<lparr>s_inst = Finite 0, table_inst = empty_table\<rparr>, generation_ga = [],
               stdout_ga = []\<rparr>)"

text \<open>\<^verbatim>\<open>fitness(f)\<close>.\<close>

definition fitness :: "GeneticAlgorithm \<Rightarrow> Table \<Rightarrow> globals \<Rightarrow> error + (float \<times> globals)" where
  "fitness s f g =
     (case k_anonymity f (original_ga s) (k_ga s) SIZE_MAX g of
        Inl e \<Rightarrow> Inl e
      | Inr (anonymous, g1) \<Rightarrow>
          if anonymous then
            (case (if m_ga s = md then minimal_distortion f (original_ga s) g1
                   else certainty_score f (original_ga s) g1) of
               Inl e \<Rightarrow> Inl e
             | Inr (s_score, g2) \<Rightarrow>
                 Inr (fdiv (fmul (of_size (k_ga s)) (of_size (cells_ga s))) s_score, g2))
          else
            (case av_k_anonymity f (original_ga s) SIZE_MAX g1 of
               Inl e \<Rightarrow> Inl e
             | Inr (av, g2) \<Rightarrow> Inr (fdiv av (of_size (k_ga s)), g2)))"

text \<open>
  \<^verbatim>\<open>combine(first, second)\<close>.  \<open>combine_cell\<close> is the body of the loop over the rows:
  the roll from the member \<^verbatim>\<open>mutations\<close> with the generator \<^verbatim>\<open>shared::gen\<close>, and what
  it decides.  \<open>combine_rows\<close> is that loop and \<open>combine_columns\<close> the loop over the
  columns.
\<close>

definition combine_cell :: "GeneticAlgorithm \<Rightarrow> Table \<Rightarrow> nat \<Rightarrow> nat \<Rightarrow> Table \<Rightarrow> globals
    \<Rightarrow> error + (Table \<times> globals)" where
  "combine_cell s second col row first g =
     (case draw (fst (mutations_ga s)) (snd (mutations_ga s)) (gen_shared g) of
        Inl e \<Rightarrow> Inl e
      | Inr (mutate, gen1) \<Rightarrow>
          if mutate > 100 then
            (case index (original_ga s) row col of
               Inl e \<Rightarrow> Inl e
             | Inr cell \<Rightarrow>
                 (case get_column (original_ga s) col of
                    Inl e \<Rightarrow> Inl e
                  | Inr ocl \<Rightarrow>
                      (case mutations cell ocl True (rng_shared g) of
                         Inl e \<Rightarrow> Inl e
                       | Inr (muts, r1) \<Rightarrow>
                           Inr (set_cell first row col (hd muts),
                                g\<lparr>gen_shared := gen1, rng_shared := r1\<rparr>))))
          else if mutate < 50 then
            (case index second row col of
               Inl e \<Rightarrow> Inl e
             | Inr cell \<Rightarrow> Inr (set_cell first row col cell, g\<lparr>gen_shared := gen1\<rparr>))
          else Inr (first, g\<lparr>gen_shared := gen1\<rparr>))"

fun combine_rows :: "GeneticAlgorithm \<Rightarrow> Table \<Rightarrow> nat \<Rightarrow> nat list \<Rightarrow> Table \<Rightarrow> globals
    \<Rightarrow> error + (Table \<times> globals)" where
  "combine_rows s second col [] first g = Inr (first, g)"
| "combine_rows s second col (row # rws) first g =
     (case combine_cell s second col row first g of
        Inl e \<Rightarrow> Inl e
      | Inr (first1, g1) \<Rightarrow> combine_rows s second col rws first1 g1)"

fun combine_columns :: "GeneticAlgorithm \<Rightarrow> Table \<Rightarrow> nat list \<Rightarrow> Table \<Rightarrow> globals
    \<Rightarrow> error + (Table \<times> globals)" where
  "combine_columns s second [] first g = Inr (first, g)"
| "combine_columns s second (col # cols) first g =
     (case get_column first col of
        Inl e \<Rightarrow> Inl e
      | Inr fc \<Rightarrow>
          (case get_column second col of
             Inl e \<Rightarrow> Inl e
           | Inr sc \<Rightarrow>
               if sensitivity fc \<noteq> quasi then combine_columns s second cols first g
               else
                 (case combine_rows s second col [0..<length (data fc)] first g of
                    Inl e \<Rightarrow> Inl e
                  | Inr (first1, g1) \<Rightarrow> combine_columns s second cols first1 g1)))"

definition combine :: "GeneticAlgorithm \<Rightarrow> Table \<Rightarrow> Table \<Rightarrow> globals \<Rightarrow> error + (Table \<times> globals)" where
  "combine s first second g = combine_columns s second [0..<columns (original_ga s)] first g"

text \<open>
  \<^verbatim>\<open>emplace\<close> into a multiset ordered by \<^verbatim>\<open>a.s > b.s\<close>: the new element goes after
  the elements that it does not precede, that is before the first element with a smaller
  \<^verbatim>\<open>s\<close>.
\<close>

fun emplace_instance :: "instance_ga \<Rightarrow> instance_ga list \<Rightarrow> instance_ga list" where
  "emplace_instance i [] = [i]"
| "emplace_instance i (e # es) =
     (if flt (s_inst e) (s_inst i) then i # e # es else e # emplace_instance i es)"

text \<open>
  The block at the start of a generation of \<^verbatim>\<open>anonymize_worker\<close>:
  \<^verbatim>\<open>if ((iter + 1) % tenth == 0) {m_rate *= 2; ...; update_view(*generation.begin());}\<close>.
  The two distributions that the block declares are local variables of the block; the
  members \<^verbatim>\<open>roll\<close> and \<^verbatim>\<open>mutations\<close> are not assigned.  \<^verbatim>\<open>update_view\<close> also sets
  \<^verbatim>\<open>best\<close>.
\<close>

definition escalate :: "GeneticAlgorithm \<Rightarrow> error + GeneticAlgorithm" where
  "escalate s =
     (if max_ga s div 10 = 0 then Inl DivisionByZero
      else if (iter_ga s + 1) mod (max_ga s div 10) = 0 then
        (case generation_ga s of
           [] \<Rightarrow> Inl OutOfBounds
         | leader # rest \<Rightarrow>
             Inr (s\<lparr>m_rate_ga := (m_rate_ga s * 2) mod 2 ^ 64, view_ga := leader,
                     best_ga := s_inst leader\<rparr>))
      else Inr s)"

text \<open>
  The loop \<^verbatim>\<open>for (y = 0; y < offspring; ++y)\<close> that makes the children of one elite:
  a partner is drawn with the member \<^verbatim>\<open>roll\<close>, \<^verbatim>\<open>current\<close> is combined with it in place,
  scored and put among the \<^verbatim>\<open>children\<close>, here \<open>next_gen\<close>.
\<close>

fun make_offspring :: "nat \<Rightarrow> instance_ga \<Rightarrow> instance_ga list \<Rightarrow> GeneticAlgorithm \<Rightarrow> globals
    \<Rightarrow> error + (instance_ga list \<times> GeneticAlgorithm \<times> globals)" where
  "make_offspring 0 current next_gen s g = Inr (next_gen, s, g)"
| "make_offspring (Suc n) current next_gen s g =
     (case draw (fst (roll_ga s)) (snd (roll_ga s)) (gen_shared g) of
        Inl e \<Rightarrow> Inl e
      | Inr (p, gen1) \<Rightarrow>
          if length (generation_ga s) \<le> p then Inl OutOfBounds
          else
            (case combine s (table_inst current) (table_inst (generation_ga s ! p))
                    (g\<lparr>gen_shared := gen1\<rparr>) of
               Inl e \<Rightarrow> Inl e
             | Inr (tb, g1) \<Rightarrow>
                 (case fitness s tb g1 of
                    Inl e \<Rightarrow> Inl e
                  | Inr (fit, g2) \<Rightarrow>
                      make_offspring n \<lparr>s_inst = fit, table_inst = tb\<rparr>
                        (emplace_instance \<lparr>s_inst = fit, table_inst = tb\<rparr> next_gen)
                        (s\<lparr>states_ga := states_ga s + 1\<rparr>) g2)))"

text \<open>The loop \<^verbatim>\<open>for (x = 0; x < cutoff; ++x)\<close> over the elites.\<close>

fun elites :: "nat list \<Rightarrow> instance_ga list \<Rightarrow> GeneticAlgorithm \<Rightarrow> globals
    \<Rightarrow> error + (instance_ga list \<times> GeneticAlgorithm \<times> globals)" where
  "elites [] next_gen s g = Inr (next_gen, s, g)"
| "elites (x # xs) next_gen s g =
     (if length (generation_ga s) \<le> x then Inl OutOfBounds
      else
        (case make_offspring
                (((population_ga s + 2 ^ 64 - cutoff_ga s) mod 2 ^ 64) div cutoff_ga s)
                (generation_ga s ! x)
                (emplace_instance (generation_ga s ! x) next_gen)
                (s\<lparr>states_ga := states_ga s + 1\<rparr>) g of
           Inl e \<Rightarrow> Inl e
         | Inr (next_gen1, s1, g1) \<Rightarrow> elites xs next_gen1 s1 g1))"

text \<open>
  One generation: the body of the loop \<^verbatim>\<open>for (iter = 0; iter < max; ++iter)\<close>, and the
  loop for the generations that are left.
\<close>

definition generation_step :: "GeneticAlgorithm \<Rightarrow> globals \<Rightarrow> error + (GeneticAlgorithm \<times> globals)" where
  "generation_step s g =
     (case escalate s of
        Inl e \<Rightarrow> Inl e
      | Inr s1 \<Rightarrow>
          (case generation_ga s1 of
             [] \<Rightarrow> Inl OutOfBounds
           | leader # rest \<Rightarrow>
               if cutoff_ga s1 = 0 then Inl DivisionByZero
               else
                 (case elites [0..<cutoff_ga s1] [] (s1\<lparr>best_ga := s_inst leader\<rparr>) g of
                    Inl e \<Rightarrow> Inl e
                  | Inr (next_gen, s2, g2) \<Rightarrow>
                      Inr (s2\<lparr>generation_ga := next_gen, iter_ga := iter_ga s2 + 1\<rparr>, g2))))"

fun generations :: "nat \<Rightarrow> GeneticAlgorithm \<Rightarrow> globals \<Rightarrow> error + (GeneticAlgorithm \<times> globals)" where
  "generations 0 s g = Inr (s, g)"
| "generations (Suc n) s g =
     (case generation_step s g of
        Inl e \<Rightarrow> Inl e
      | Inr (s1, g1) \<Rightarrow> generations n s1 g1)"

text \<open>
  \<^verbatim>\<open>GeneticAlgorithm::anonymize_worker()\<close>: \<^verbatim>\<open>max\<close> generations from \<^verbatim>\<open>iter = 0\<close>, then
  the tables of the instances that share the top score.
\<close>

definition GeneticAlgorithm_worker :: "GeneticAlgorithm \<Rightarrow> globals
    \<Rightarrow> error + (Table list \<times> GeneticAlgorithm \<times> globals)" where
  "GeneticAlgorithm_worker s g =
     (case generations (max_ga s) (s\<lparr>iter_ga := 0\<rparr>) g of
        Inl e \<Rightarrow> Inl e
      | Inr (s1, g1) \<Rightarrow>
          (case generation_ga s1 of
             [] \<Rightarrow> Inl OutOfBounds
           | leader # rest \<Rightarrow>
               Inr (map table_inst (takeWhile (\<lambda>i. feq (s_inst i) (s_inst leader)) (generation_ga s1)),
                    s1, g1)))"

text \<open>
  The start of \<^verbatim>\<open>GeneticAlgorithm::anonymize(k_val, m_val, iters, p_val, mut_rate)\<close>: the
  parameters are stored, the first generation of random tables is made and scored, and the
  member \<^verbatim>\<open>roll\<close> is set.  The member \<^verbatim>\<open>mutations\<close> is not assigned.
\<close>

definition store_parameters :: "nat \<Rightarrow> metric \<Rightarrow> nat \<Rightarrow> nat \<Rightarrow> nat \<Rightarrow> GeneticAlgorithm \<Rightarrow> GeneticAlgorithm" where
  "store_parameters k_val m_val iters p_val mut_rate s =
     s\<lparr>k_ga := k_val, m_ga := m_val, max_ga := (if iters \<noteq> SIZE_MAX then iters else max_ga s),
       population_ga := p_val, m_rate_ga := mut_rate\<rparr>"

fun first_generation :: "nat \<Rightarrow> GeneticAlgorithm \<Rightarrow> globals \<Rightarrow> error + (GeneticAlgorithm \<times> globals)" where
  "first_generation 0 s g = Inr (s, g)"
| "first_generation (Suc n) s g =
     (case random_table (original_ga s) (rng_shared g) of
        Inl e \<Rightarrow> Inl e
      | Inr (tb, r1) \<Rightarrow>
          (case fitness s tb (g\<lparr>rng_shared := r1\<rparr>) of
             Inl e \<Rightarrow> Inl e
           | Inr (fit, g1) \<Rightarrow>
               first_generation n
                 (s\<lparr>generation_ga := emplace_instance \<lparr>s_inst = fit, table_inst = tb\<rparr> (generation_ga s)\<rparr>)
                 g1))"

text \<open>
  \<^verbatim>\<open>GeneticAlgorithm::anonymize\<close>.  As for \<^verbatim>\<open>MinGen\<close>, the worker runs to its end before
  the statistics are printed, and the frames drawn meanwhile are not modelled.  The warning
  waits for a key with \<^verbatim>\<open>getchar()\<close>, which is not modelled either.
\<close>

definition GeneticAlgorithm_anonymize :: "nat \<Rightarrow> metric \<Rightarrow> nat \<Rightarrow> nat \<Rightarrow> nat \<Rightarrow> nat
    \<Rightarrow> GeneticAlgorithm \<Rightarrow> globals \<Rightarrow> error + (GeneticAlgorithm \<times> globals)" where
  "GeneticAlgorithm_anonymize k_val m_val iters p_val mut_rate fuel s g =
     (case first_generation p_val (store_parameters k_val m_val iters p_val mut_rate s) g of
        Inl e \<Rightarrow> Inl e
      | Inr (s1, g1) \<Rightarrow>
          (case get_distinct (original_ga s1) of
             Inl e \<Rightarrow> Inl e
           | Inr tot \<Rightarrow>
               (case pick_mode fuel (mode_shared g1) g1 of
                  Inl e \<Rightarrow> Inl e
                | Inr g2 \<Rightarrow>
                    (case GeneticAlgorithm_worker (s1\<lparr>roll_ga := (0, cutoff_ga s1)\<rparr>) g2 of
                       Inl e \<Rightarrow> Inl e
                     | Inr (tables, s2, g3) \<Rightarrow>
                         (case tables of
                            [] \<Rightarrow> Inl OutOfBounds
                          | b # bs \<Rightarrow>
                              (case (if m_ga s2 = md then minimal_distortion b (original_ga s2) g3
                                     else certainty_score b (original_ga s2) g3) of
                                 Inl e \<Rightarrow> Inl e
                               | Inr (score, g4) \<Rightarrow>
                                   (case k_anonymity b (original_ga s2) (k_ga s2) SIZE_MAX g4 of
                                      Inl e \<Rightarrow> Inl e
                                    | Inr (anonymous, g5) \<Rightarrow>
                                        Inr (s2\<lparr>best_ga := PlusInf, states_ga := 0, iter_ga := 0,
                                                stdout_ga := stdout_ga s2 @
                                                  (if anonymous then []
                                                   else [Notice ''WARNING: Result is not k-anonymous! Increase iterations or population size!'']) @
                                                  [Stats tables (max_ga s2) tot (states_ga s2) score]\<rparr>,
                                             g5))))))))"

section \<open>Notions of the specification\<close>

text \<open>
  The candidate set \<open>K[r]\<close> of row \<open>r\<close> in the words of the specification: the originals
  \<open>\<sigma> r\<close> over all injective assignments \<open>\<sigma>\<close> of the rows to originals with
  \<open>\<sigma> i\<close> in the match set \<open>ms ! i\<close> of every row \<open>i\<close>.
\<close>

definition K_spec :: "nat list list \<Rightarrow> nat \<Rightarrow> nat set" where
  "K_spec ms r = {\<sigma> r | \<sigma>. inj_on \<sigma> {..<length ms} \<and> (\<forall>i<length ms. \<sigma> i \<in> set (ms ! i))}"

text \<open>
  For the proof about \<open>k_tree\<close>: the complete paths that extend the path \<open>tree\<close>, each
  a list of distinct originals, one for every row, taken from the row's match set from
  position \<open>length tree\<close> on.
\<close>

definition exts :: "nat list list \<Rightarrow> nat list \<Rightarrow> nat list set" where
  "exts ms tree = {p. length p = length ms \<and> distinct p \<and> take (length tree) p = tree \<and>
                      (\<forall>i<length ms. length tree \<le> i \<longrightarrow> p ! i \<in> set (ms ! i))}"

section \<open>Example data\<close>

text \<open>A generator whose raw numbers are all 0, and the globals at the start of a run.\<close>

definition rng0 :: rng where
  "rng0 = \<lparr>raw = (\<lambda>n. 0), used = 0\<rparr>"

definition globals0 :: "bool \<Rightarrow> globals" where
  "globals0 b = \<lparr>cache = b, score_cache = empty_tree (Finite 0), match_cache = empty_tree [],
     match_trims = 0, rng_shared = rng0, gen_shared = rng0, mode_shared = 0\<rparr>"

text \<open>
  A column of strings without hierarchy, as the constructor of \<^verbatim>\<open>Table\<close> builds it
  from the cells \<open>loaded\<close> (for a column that is not of integers \<^verbatim>\<open>generate_ranges\<close>
  sets the range to \<open>0..unique.size()\<close>), holding the cells \<open>ds\<close> now.
\<close>

definition plain_column :: "classification \<Rightarrow> float \<Rightarrow> string list \<Rightarrow> string list \<Rightarrow> column" where
  "plain_column s wt loaded ds = \<lparr>t_col = string, weight = wt, sensitivity = s, width = 0,
     unique = set loaded, ranges = [],
     range_col = \<lparr>min_r = 0, max_r = card (set loaded), out = []\<rparr>,
     graph = Domain [] [], data = ds\<rparr>"

definition one_column :: "string \<Rightarrow> column \<Rightarrow> Table" where
  "one_column name cl = \<lparr>header = [name], rows = length (data cl), data_tbl = [(name, cl)]\<rparr>"

text \<open>The table (M),(M),(F),(F) and its copy with the first cell suppressed.\<close>

definition four_rows_original :: Table where
  "four_rows_original =
     one_column ''Sex'' (plain_column quasi (Finite 1) [''M'', ''M'', ''F'', ''F''] [''M'', ''M'', ''F'', ''F''])"

definition four_rows_working :: Table where
  "four_rows_working =
     one_column ''Sex'' (plain_column quasi (Finite 1) [''M'', ''M'', ''F'', ''F''] [''*'', ''M'', ''F'', ''F''])"

text \<open>The table (M),(F),(F) and its copy with the first cell suppressed.\<close>

definition three_rows_original :: Table where
  "three_rows_original =
     one_column ''Sex'' (plain_column quasi (Finite 1) [''M'', ''F'', ''F''] [''M'', ''F'', ''F''])"

definition three_rows_working :: Table where
  "three_rows_working =
     one_column ''Sex'' (plain_column quasi (Finite 1) [''M'', ''F'', ''F''] [''*'', ''F'', ''F''])"

text \<open>A column of jobs whose second cell is suppressed in the loaded table already, and
  its copy with both cells suppressed.\<close>

definition starred_original :: Table where
  "starred_original = one_column ''Job'' (plain_column quasi (Finite 1) [''A'', ''*''] [''A'', ''*''])"

definition starred_working :: Table where
  "starred_working = one_column ''Job'' (plain_column quasi (Finite 1) [''A'', ''*''] [''*'', ''*''])"

text \<open>A column of jobs with the hierarchy Job / Blue / Mechanic.\<close>

definition jobs_column :: column where
  "jobs_column = (plain_column quasi (Finite 1) [''Mechanic'', ''*''] [''Mechanic'', ''*''])
     \<lparr>graph := Domain ''Job'' [Domain ''Blue'' [Domain ''Mechanic'' []]]\<rparr>"

text \<open>A table with an ignored column of names and a quasi column of jobs.\<close>

definition names_jobs :: Table where
  "names_jobs = \<lparr>header = [''name'', ''job''], rows = 2,
     data_tbl = [(''job'', plain_column quasi (Finite 1) [''x'', ''y''] [''x'', ''y'']),
                 (''name'', plain_column ignore (Finite 1) [''Ann'', ''Bob''] [''Ann'', ''Bob''])]\<rparr>"

text \<open>A table of 66 cells: 33 rows of an ignored column and of a quasi column.\<close>

definition wide_table :: Table where
  "wide_table = \<lparr>header = [''id'', ''job''], rows = 33,
     data_tbl = [(''id'', plain_column ignore (Finite 1) (replicate 33 ''a'') (replicate 33 ''a'')),
                 (''job'', plain_column quasi (Finite 1) (replicate 33 ''x'') (replicate 33 ''x''))]\<rparr>"

text \<open>
  \<^verbatim>\<open>distinct_states\<close> in the words of the specification: the product of the numbers of
  mutations of the cells of the quasi columns only, and the sentinel when there are more
  than 64 such cells.
\<close>

definition quasi_cells :: "Table \<Rightarrow> (column \<times> string) list" where
  "quasi_cells tb =
     concat (map (\<lambda>(name, col). if sensitivity col = quasi then map (\<lambda>e. (col, e)) (data col) else [])
               (data_tbl tb))"

definition distinct_states_spec :: "Table \<Rightarrow> error + nat" where
  "distinct_states_spec tb =
     (case sequence (map (\<lambda>(col, e). mutations_list e col) (quasi_cells tb)) of
        Inl e \<Rightarrow> Inl e
      | Inr ms \<Rightarrow>
          Inr (if length (quasi_cells tb) > 64 then SIZE_MAX else prod_list (map length ms)))"

text \<open>
  For the claim about weights: \<^verbatim>\<open>0 <= a\<close> on floats, the conditions that no weight of
  a table and no cached score is negative (or NaN), and the table with every column's
  weight multiplied by \<open>l\<close>.
\<close>

definition nonneg :: "float \<Rightarrow> bool" where
  "nonneg a = fle (Finite 0) a"

definition nonneg_weights :: "Table \<Rightarrow> bool" where
  "nonneg_weights tb = list_all (\<lambda>(name, cl). nonneg (weight cl)) (data_tbl tb)"

definition nonneg_scores :: "globals \<Rightarrow> bool" where
  "nonneg_scores g = (\<forall>v\<in>set_node (root (score_cache g)). nonneg v)"

definition scale_column :: "float \<Rightarrow> column \<Rightarrow> column" where
  "scale_column l cl = cl\<lparr>weight := fmul l (weight cl)\<rparr>"

definition scale_weights :: "float \<Rightarrow> Table \<Rightarrow> Table" where
  "scale_weights l tb = tb\<lparr>data_tbl := map (\<lambda>(name, cl). (name, scale_column l cl)) (data_tbl tb)\<rparr>"

text \<open>
  For the exact scaling: a float that is a whole number of magnitude \<open>M\<close> at most, the
  tables whose weights and the globals whose cached scores are such numbers, the tables
  whose changed cells are all suppressed, the globals with every cached score multiplied
  by \<open>l\<close>, and a result with its score and its cached scores multiplied by \<open>l\<close>.
\<close>

definition whole :: "nat \<Rightarrow> float \<Rightarrow> bool" where
  "whole M a = (case a of Finite x \<Rightarrow> x = of_int \<lfloor>x\<rfloor> \<and> \<bar>x\<bar> \<le> real M | _ \<Rightarrow> False)"

definition whole_weights :: "nat \<Rightarrow> Table \<Rightarrow> bool" where
  "whole_weights M tb = list_all (\<lambda>(name, cl). whole M (weight cl)) (data_tbl tb)"

definition suppressed_only :: "Table \<Rightarrow> Table \<Rightarrow> bool" where
  "suppressed_only w orig =
     list_all (\<lambda>r. list_all (\<lambda>c. index w r c = index orig r c \<or> index w r c = Inr ''*'')
                      [0..<columns w]) [0..<rows w]"

definition whole_scores :: "nat \<Rightarrow> globals \<Rightarrow> bool" where
  "whole_scores M g = (\<forall>v\<in>set_node (root (score_cache g)). whole M v)"

definition scale_scores :: "float \<Rightarrow> globals \<Rightarrow> globals" where
  "scale_scores l g =
     g\<lparr>score_cache := (score_cache g)\<lparr>root := map_node (fmul l) (root (score_cache g))\<rparr>\<rparr>"

definition scale_result :: "float \<Rightarrow> error + (float \<times> globals) \<Rightarrow> error + (float \<times> globals)" where
  "scale_result l res =
     (case res of Inl e \<Rightarrow> Inl e | Inr (s, g) \<Rightarrow> Inr (fmul l s, scale_scores l g))"

text \<open>
  For the proof of the exact scaling: the run \<open>X\<close> and the run \<open>Y\<close> with the scaled
  weights fail alike, or \<open>X\<close> returns a whole number \<open>b\<close> of magnitude \<open>K\<close> at most
  and \<open>Y\<close> returns \<open>l * b\<close>; \<open>scaled_runs\<close> is the same for runs that return the
  globals too, whose cached scores stay whole numbers of magnitude \<open>P\<close> at most.
\<close>

definition scaled_run :: "int \<Rightarrow> int \<Rightarrow> error + float \<Rightarrow> error + float \<Rightarrow> bool" where
  "scaled_run l K X Y =
     (case X of
        Inl e \<Rightarrow> Y = Inl e
      | Inr v \<Rightarrow> \<exists>b. v = Finite (of_int b) \<and> \<bar>b\<bar> \<le> K \<and> Y = Inr (Finite (of_int (l * b))))"

definition scaled_runs :: "int \<Rightarrow> int \<Rightarrow> nat \<Rightarrow> error + (float \<times> globals) \<Rightarrow> error + (float \<times> globals)
    \<Rightarrow> bool" where
  "scaled_runs l K P X Y =
     (case X of
        Inl e \<Rightarrow> Y = Inl e
      | Inr (v, g) \<Rightarrow>
          \<exists>b. v = Finite (of_int b) \<and> \<bar>b\<bar> \<le> K \<and> (cache g \<longrightarrow> whole_scores P g) \<and>
              Y = Inr (Finite (of_int (l * b)), scale_scores (Finite (of_int l)) g))"

text \<open>A column of one job with the weight \<open>- 10\<close>, and its copy with the cell suppressed.\<close>

definition negative_original :: Table where
  "negative_original = one_column ''Job'' (plain_column quasi (Finite (- 10)) [''A''] [''A''])"

definition negative_working :: Table where
  "negative_working = one_column ''Job'' (plain_column quasi (Finite (- 10)) [''A''] [''*''])"

text \<open>
  A row (x, y) of two quasi columns with the weights \<open>2 ^ 24\<close> and 1, and its copy with
  both cells suppressed.
\<close>

definition heavy_original :: Table where
  "heavy_original = \<lparr>header = [''Job'', ''City''], rows = 1,
     data_tbl = [(''City'', plain_column quasi (Finite 1) [''y''] [''y'']),
                 (''Job'', plain_column quasi (Finite 16777216) [''x''] [''x''])]\<rparr>"

definition heavy_working :: Table where
  "heavy_working = \<lparr>header = [''Job'', ''City''], rows = 1,
     data_tbl = [(''City'', plain_column quasi (Finite 1) [''y''] [''*'']),
                 (''Job'', plain_column quasi (Finite 16777216) [''x''] [''*''])]\<rparr>"

text \<open>
  A column of integers with the one cell 5, as the constructor of \<^verbatim>\<open>Table\<close> builds it
  (\<^verbatim>\<open>generate_ranges\<close> finds no pair of cells, so the range stays \<open>[0-0]\<close>), holding the
  cells \<open>ds\<close> now; the table of that column, and a table with the range \<open>[0-0]\<close> in
  the place of the cell.
\<close>

definition age_column :: "string list \<Rightarrow> column" where
  "age_column ds = \<lparr>t_col = integer, weight = Finite 1, sensitivity = quasi, width = 0,
     unique = {''5''}, ranges = [],
     range_col = \<lparr>min_r = 0, max_r = 0, out = ''[0-0]''\<rparr>,
     graph = Domain [] [], data = ds\<rparr>"

definition age_original :: Table where
  "age_original = one_column ''Age'' (age_column [''5''])"

definition age_working :: Table where
  "age_working = one_column ''Age'' (age_column [''[0-0]''])"

text \<open>A table of two quasi columns with the rows (A, x) and (A, y).\<close>

definition two_columns :: Table where
  "two_columns = \<lparr>header = [''Job'', ''City''], rows = 2,
     data_tbl = [(''City'', plain_column quasi (Finite 1) [''x'', ''y''] [''x'', ''y'']),
                 (''Job'', plain_column quasi (Finite 1) [''A'', ''A''] [''A'', ''A''])]\<rparr>"

text \<open>The best score among the statistics an object has printed.\<close>

fun printed_best :: "printed \<Rightarrow> float option" where
  "printed_best (Stats ts mx tot st b) = Some b"
| "printed_best (Notice n) = None"

text \<open>
  The search at the moment the last row of column 0 of \<open>two_columns\<close> holds its original
  value again: the working table equals the original, \<open>k = 2\<close>.
\<close>

definition unchanged_prefix :: "metric \<Rightarrow> float \<Rightarrow> MinGen" where
  "unchanged_prefix m b =
     (MinGen_new two_columns)\<lparr>k_mg := 2, m_mg := m, working_mg := two_columns, best_mg := b\<rparr>"

text \<open>The same search with both cells of the column Job suppressed.\<close>

definition suppressed_prefix :: "metric \<Rightarrow> float \<Rightarrow> MinGen" where
  "suppressed_prefix m b =
     (MinGen_new two_columns)\<lparr>k_mg := 2, m_mg := m, best_mg := b,
        working_mg := set_cell (set_cell two_columns 0 0 ''*'') 1 0 ''*''\<rparr>"

text \<open>
  A column of jobs (A),(B),(B),(B),(B),(B), its copy with all cells but the first
  suppressed, and its copy with all cells suppressed; and the \<^verbatim>\<open>GeneticAlgorithm\<close> object
  for the original, as its constructor leaves it.
\<close>

definition six_rows_original :: Table where
  "six_rows_original = one_column ''Job''
     (plain_column quasi (Finite 1) [''A'', ''B'', ''B'', ''B'', ''B'', ''B''] [''A'', ''B'', ''B'', ''B'', ''B'', ''B''])"

definition six_rows_partial :: Table where
  "six_rows_partial = one_column ''Job''
     (plain_column quasi (Finite 1) [''A'', ''B'', ''B'', ''B'', ''B'', ''B''] [''A'', ''*'', ''*'', ''*'', ''*'', ''*''])"

definition six_rows_suppressed :: Table where
  "six_rows_suppressed = one_column ''Job''
     (plain_column quasi (Finite 1) [''A'', ''B'', ''B'', ''B'', ''B'', ''B''] [''*'', ''*'', ''*'', ''*'', ''*'', ''*''])"

definition six_rows_ga :: GeneticAlgorithm where
  "six_rows_ga =
     \<lparr>original_ga = six_rows_original, k_ga = 2, best_ga = PlusInf, m_ga = md, max_ga = 1000,
      population_ga = 100, states_ga = 0, cutoff_ga = 10, m_rate_ga = 10, cells_ga = 6, iter_ga = 0,
      roll_ga = (0, 2 ^ 31 - 1), mutations_ga = (0, 110),
      view_ga = \<lparr>s_inst = Finite 0, table_inst = empty_table\<rparr>, generation_ga = [], stdout_ga = []\<rparr>"

text \<open>
  The object for \<open>six_rows_original\<close> during a run of 10 generations with the mutation
  rate 10, holding a generation of one scored table, and a generator whose raw numbers
  are all 115.
\<close>

definition running_ga :: GeneticAlgorithm where
  "running_ga = six_rows_ga\<lparr>max_ga := 10,
     generation_ga := [\<lparr>s_inst = Finite 2, table_inst = six_rows_suppressed\<rparr>],
     roll_ga := (0, 10)\<rparr>"

definition rng115 :: rng where
  "rng115 = \<lparr>raw = (\<lambda>n. 115), used = 0\<rparr>"
section \<open>Properties of the rounding\<close>

lemma round_even_of_int: "round_even (of_int n) = n"
  by (simp add: round_even_def)

lemma round_even_nonneg: "0 \<le> x \<Longrightarrow> 0 \<le> round_even x"
  by (auto simp: round_even_def Let_def)

lemma round_even_nonpos: "x \<le> 0 \<Longrightarrow> round_even x \<le> 0"
  by (auto simp: round_even_def Let_def)

lemma exponent_Some:
  "exponent x = Some e \<Longrightarrow>
     -149 \<le> e \<and> e \<le> 104 \<and> \<bar>x\<bar> < 2 powi (e + 24) \<and> (e = -149 \<or> 2 powi (e + 23) \<le> \<bar>x\<bar>)"
proof -
  assume a: "exponent x = Some e"
  then obtain i where i: "i < length [-149..104]" "\<bar>x\<bar> < 2 powi (([-149..104] ! i) + 24)"
    "e = [-149..104] ! i" "\<forall>j<i. \<not> \<bar>x\<bar> < 2 powi (([-149..104] ! j) + 24)"
    unfolding exponent_def find_Some_iff by blast
  have li: "i < 254" using i(1) by simp
  have e: "e = -149 + int i" using i(3) li by (simp del: upto_rec_numeral)
  have "e = -149 \<or> 2 powi (e + 23) \<le> \<bar>x\<bar>"
  proof (cases i)
    case 0
    then show ?thesis using e by simp
  next
    case (Suc j)
    then have "j < i" by simp
    with i(4) have "\<not> \<bar>x\<bar> < 2 powi (([-149..104] ! j) + 24)" by blast
    moreover have "[-149..104] ! j = -149 + int j" using li Suc by (simp del: upto_rec_numeral)
    moreover have "-149 + int j + 24 = e + 23" using e Suc by simp
    ultimately have "\<not> \<bar>x\<bar> < 2 powi (e + 23)" by metis
    then show ?thesis by simp
  qed
  moreover have "-149 \<le> e" "e \<le> 104" using e li by simp_all
  moreover have "\<bar>x\<bar> < 2 powi (e + 24)" using i(2,3) by simp
  ultimately show ?thesis by simp
qed

lemma exponent_None: "exponent x = None \<Longrightarrow> 2 ^ 128 \<le> \<bar>x\<bar>"
proof -
  assume "exponent x = None"
  then have "\<forall>e\<in>{-149..104}. \<not> \<bar>x\<bar> < 2 powi (e + 24)"
    unfolding exponent_def find_None_iff by (simp del: upto_rec_numeral)
  then have "\<not> \<bar>x\<bar> < 2 powi (104 + 24)" by (rule bspec) simp
  then show ?thesis by simp
qed

lemma exponent_eq:
  assumes "-149 \<le> e" "e \<le> 104" "\<bar>x\<bar> < 2 powi (e + 24)" "e = -149 \<or> 2 powi (e + 23) \<le> \<bar>x\<bar>"
  shows "exponent x = Some e"
proof (cases "exponent x")
  case None
  from exponent_None[OF this] have "2 powi 128 \<le> \<bar>x\<bar>" by simp
  moreover have "(2::real) powi (e + 24) \<le> 2 powi 128"
    using assms(2) by (intro power_int_increasing) simp_all
  ultimately show ?thesis using assms(3) by linarith
next
  case (Some e')
  note p = exponent_Some[OF Some]
  have "e' = e"
  proof (rule ccontr)
    assume "e' \<noteq> e"
    then consider "e' < e" | "e < e'" by linarith
    then show False
    proof cases
      case 1
      then have "e \<noteq> -149" using p by simp
      with assms(4) have "2 powi (e + 23) \<le> \<bar>x\<bar>" by simp
      moreover have "(2::real) powi (e' + 24) \<le> 2 powi (e + 23)"
        using 1 by (intro power_int_increasing) simp_all
      ultimately show False using p by linarith
    next
      case 2
      then have "e' \<noteq> -149" using assms(1) by simp
      with p have "2 powi (e' + 23) \<le> \<bar>x\<bar>" by simp
      moreover have "(2::real) powi (e + 24) \<le> 2 powi (e' + 23)"
        using 2 by (intro power_int_increasing) simp_all
      ultimately show False using assms(3) by linarith
    qed
  qed
  with Some show ?thesis by simp
qed

lemma rnd_eq:
  assumes "-149 \<le> e" "e \<le> 104" "\<bar>x\<bar> < 2 powi (e + 24)" "e = -149 \<or> 2 powi (e + 23) \<le> \<bar>x\<bar>"
  shows "rnd x = (let y = of_int (round_even (x / 2 powi e)) * 2 powi e
                  in if 2 ^ 128 \<le> \<bar>y\<bar> then (if 0 < x then PlusInf else MinusInf) else Finite y)"
  unfolding rnd_def exponent_eq[OF assms] by simp

lemma rnd_of_int:
  assumes "\<bar>n\<bar> \<le> 2 ^ 24"
  shows "rnd (of_int n) = Finite (of_int n)"
proof (cases "exponent (of_int n)")
  case None
  from exponent_None[OF this] have "(2::real) ^ 128 \<le> \<bar>of_int n\<bar>" .
  moreover have "\<bar>of_int n :: real\<bar> \<le> 2 ^ 24"
    using assms by (metis of_int_abs of_int_le_iff of_int_numeral of_int_power)
  ultimately show ?thesis by simp
next
  case (Some e)
  note p = exponent_Some[OF Some]
  have b: "\<bar>of_int n :: real\<bar> \<le> 2 ^ 24"
    using assms by (metis of_int_abs of_int_le_iff of_int_numeral of_int_power)
  have "\<exists>m::int. (of_int n :: real) / 2 powi e = of_int m"
  proof (cases "e \<le> 0")
    case True
    then have "(of_int n :: real) / 2 powi e = of_int n * 2 powi (- e)"
      by (simp add: power_int_minus field_simps)
    also have "(2::real) powi (- e) = 2 ^ nat (- e)"
      using True by (simp add: power_int_def)
    also have "of_int n * (2::real) ^ nat (- e) = of_int (n * 2 ^ nat (- e))" by simp
    finally show ?thesis by blast
  next
    case False
    then have "e \<noteq> -149" by simp
    with p have "2 powi (e + 23) \<le> \<bar>of_int n :: real\<bar>" by simp
    with b have le: "(2::real) powi (e + 23) \<le> 2 powi 24" by simp
    have "e + 23 \<le> 24"
    proof (rule ccontr)
      assume "\<not> e + 23 \<le> 24"
      then have "(2::real) powi 24 < 2 powi (e + 23)"
        by (intro power_int_strict_increasing) simp_all
      with le show False by simp
    qed
    with False have e: "e = 1" by simp
    with p b have "\<bar>of_int n :: real\<bar> = 2 ^ 24" by simp
    then have "\<bar>n\<bar> = 2 ^ 24"
      by (metis of_int_abs of_int_eq_iff of_int_numeral of_int_power)
    then consider "n = 2 ^ 24" | "n = - (2 ^ 24)" by linarith
    then show ?thesis
    proof cases
      case 1
      then have "(of_int n :: real) / 2 powi e = of_int (2 ^ 23)" using e by simp
      then show ?thesis by blast
    next
      case 2
      then have "(of_int n :: real) / 2 powi e = of_int (- (2 ^ 23))" using e by simp
      then show ?thesis by blast
    qed
  qed
  then obtain m :: int where m: "(of_int n :: real) / 2 powi e = of_int m" ..
  have "of_int (round_even (of_int n / 2 powi e)) * 2 powi e = (of_int n :: real)"
    unfolding m round_even_of_int unfolding m[symmetric] by simp
  with b show ?thesis unfolding rnd_def Some by simp
qed

lemma nonneg_iff:
  "nonneg a = (case a of Finite x \<Rightarrow> 0 \<le> x | PlusInf \<Rightarrow> True | MinusInf \<Rightarrow> False | NaN \<Rightarrow> False)"
  by (auto simp: nonneg_def fle_def flt_def feq_def split: float.splits)

lemma rnd_nonneg: "0 \<le> x \<Longrightarrow> nonneg (rnd x)"
proof -
  assume x: "0 \<le> x"
  show ?thesis
  proof (cases "exponent x")
    case None
    from exponent_None[OF this] x have "0 < x" by simp
    with None show ?thesis by (simp add: rnd_def nonneg_iff)
  next
    case (Some e)
    have "0 \<le> x / 2 powi e" using x by simp
    then have "0 \<le> round_even (x / 2 powi e)" by (rule round_even_nonneg)
    then have y: "0 \<le> (of_int (round_even (x / 2 powi e)) :: real) * 2 powi e" by simp
    show ?thesis
    proof (cases "x = 0")
      case True
      then show ?thesis using Some by (simp add: rnd_def nonneg_iff round_even_def)
    next
      case False
      with x have "0 < x" by simp
      with y Some show ?thesis by (simp add: rnd_def nonneg_iff Let_def)
    qed
  qed
qed

lemma rnd_numeral: "numeral k \<le> (16777216::int) \<Longrightarrow> rnd (numeral k) = Finite (numeral k)"
  using rnd_of_int[of "numeral k"] by simp

lemma rnd_0: "rnd 0 = Finite 0"
  using rnd_of_int[of 0] by simp

lemma rnd_1: "rnd 1 = Finite 1"
  using rnd_of_int[of 1] by simp

lemma rnd_16777217: "rnd 16777217 = Finite 16777216"
  by (subst rnd_eq[of 1]) (simp_all add: round_even_def)

lemma rnd_50331651: "rnd 50331651 = Finite 50331652"
  by (subst rnd_eq[of 2]) (simp_all add: round_even_def)

lemma rnd_13_3: "rnd (13 / 3) = Finite (9087659 / 2097152)"
  by (subst rnd_eq[of "-21"]) (simp_all add: round_even_def)

lemma rnd_neg_numeral:
  "numeral k \<le> (16777216::int) \<Longrightarrow> rnd (- numeral k) = Finite (- numeral k)"
  using rnd_of_int[of "- numeral k"] by simp

lemma rnd_50331648: "rnd 50331648 = Finite 50331648"
  by (subst rnd_eq[of 2]) (simp_all add: round_even_def)

lemma rnd_50331652: "rnd 50331652 = Finite 50331652"
  by (subst rnd_eq[of 2]) (simp_all add: round_even_def)

lemmas float_eval = fadd_def fmul_def fdiv_def flt_def feq_def fle_def of_size_def positive_def
  rnd_0 rnd_1 rnd_numeral rnd_neg_numeral

section \<open>Properties of the cache tree\<close>

lemma find_state_Some:
  "find_state val ns = Some i \<Longrightarrow> i < length ns \<and> key (ns ! i) = val"
  by (induction ns arbitrary: i) (auto split: if_splits option.splits)

lemma find_state_append:
  "find_state val ns = Some i \<Longrightarrow> find_state val (ns @ [n]) = Some i"
  by (induction ns arbitrary: i) (auto split: if_splits option.splits)

lemma find_state_update:
  "i < length ns \<Longrightarrow> key n = key (ns ! i) \<Longrightarrow> find_state val (ns[i := n]) = find_state val ns"
proof (induction ns arbitrary: i)
  case Nil then show ?case by simp
next
  case (Cons a ns)
  then show ?case by (cases i) auto
qed

declare add_node.simps [simp del] in_node.simps [simp del] get_node.simps [simp del]

lemma add_node_end:
  "x = (mx + 1) mod 2 ^ 64 \<Longrightarrow>
   add_node d row v mx x (Node k val sts) =
     (if val \<noteq> d then Inl TreeCollision else Inr (Node k v sts))"
  by (subst add_node.simps) simp

lemma add_node_step:
  "x \<noteq> (mx + 1) mod 2 ^ 64 \<Longrightarrow>
   add_node d row v mx x (Node k val sts) =
     (if length row \<le> x then Inl OutOfBounds
      else
        (case find_state (row ! x) sts of
           None \<Rightarrow>
             (case add_node d row v mx (x + 1) (Node (row ! x) d []) of
                Inl e \<Rightarrow> Inl e
              | Inr n' \<Rightarrow> Inr (Node k val (sts @ [n'])))
         | Some i \<Rightarrow>
             (case add_node d row v mx (x + 1) (sts ! i) of
                Inl e \<Rightarrow> Inl e
              | Inr n' \<Rightarrow> Inr (Node k val (sts[i := n'])))))"
  by (subst add_node.simps) simp

lemma in_node_end:
  "x = (mx + 1) mod 2 ^ 64 \<Longrightarrow> in_node d row mx x (Node k val sts) = Inr (val \<noteq> d)"
  by (subst in_node.simps) simp

lemma in_node_step:
  "x \<noteq> (mx + 1) mod 2 ^ 64 \<Longrightarrow>
   in_node d row mx x (Node k val sts) =
     (if length row \<le> x then Inl OutOfBounds
      else if sts = [] then Inr False
      else
        (case find_state (row ! x) sts of
           None \<Rightarrow> Inr False
         | Some i \<Rightarrow> in_node d row mx (x + 1) (sts ! i)))"
  by (subst in_node.simps) simp

lemma get_node_end:
  "x = (mx + 1) mod 2 ^ 64 \<Longrightarrow> get_node row mx x (Node k val sts) = Inr val"
  by (subst get_node.simps) simp

lemma get_node_step:
  "x \<noteq> (mx + 1) mod 2 ^ 64 \<Longrightarrow>
   get_node row mx x (Node k val sts) =
     (if length row \<le> x then Inl OutOfBounds
      else
        (case find_state (row ! x) sts of
           None \<Rightarrow> Inl ValueDoesNotExist
         | Some i \<Rightarrow> get_node row mx (x + 1) (sts ! i)))"
  by (subst get_node.simps) simp

lemma add_node_key: "add_node d row v mx x n = Inr n' \<Longrightarrow> key n' = key n"
proof (cases n)
  case (Node k val sts)
  assume a: "add_node d row v mx x n = Inr n'"
  show ?thesis
  proof (cases "x = (mx + 1) mod 2 ^ 64")
    case True
    from a show ?thesis unfolding Node add_node_end[OF True]
      by (auto split: if_splits)
  next
    case False
    from a show ?thesis unfolding Node add_node_step[OF False]
      by (auto split: if_splits option.splits sum.splits)
  qed
qed

lemma in_node_collision:
  "in_node d row mx x n = Inr True \<Longrightarrow> add_node d row v mx x n = Inl TreeCollision"
proof (induction d row mx x n rule: in_node.induct)
  case (1 d row mx x k val sts)
  show ?case
  proof (cases "x = (mx + 1) mod 2 ^ 64")
    case True
    from "1.prems" show ?thesis
      unfolding in_node_end[OF True] add_node_end[OF True] by simp
  next
    case False
    note P = "1.prems"[unfolded in_node_step[OF False]]
    from P have inb: "\<not> length row \<le> x" and ne: "sts \<noteq> []"
      by (auto split: if_splits)
    from P inb ne obtain i where
      fs: "find_state (row ! x) sts = Some i" and
      sub: "in_node d row mx (x + 1) (sts ! i) = Inr True"
      by (auto split: option.splits)
    from "1.IH"[OF False inb ne fs sub]
    have "add_node d row v mx (x + 1) (sts ! i) = Inl TreeCollision" .
    with inb fs show ?thesis
      unfolding add_node_step[OF False] by simp
  qed
qed

lemma add_node_preserves:
  "add_node d row v mx x n = Inr n' \<Longrightarrow> in_node d row' mx' x n = Inr True \<Longrightarrow>
   get_node row' mx' x n' = get_node row' mx' x n \<and> in_node d row' mx' x n' = Inr True"
proof (induction d row v mx x n arbitrary: n' rule: add_node.induct)
  case (1 d row v mx x k val sts)
  show ?case
  proof (cases "x = (mx + 1) mod 2 ^ 64")
    case True
    note P1 = "1.prems"(1)[unfolded add_node_end[OF True]]
    from P1 have vd: "val = d" and n': "n' = Node k v sts"
      by (auto split: if_splits)
    have ne: "x \<noteq> (mx' + 1) mod 2 ^ 64"
    proof
      assume e: "x = (mx' + 1) mod 2 ^ 64"
      from "1.prems"(2)[unfolded in_node_end[OF e]] vd show False by simp
    qed
    from "1.prems"(2) show ?thesis
      unfolding n' in_node_step[OF ne] get_node_step[OF ne] by simp
  next
    case False
    note P1 = "1.prems"(1)[unfolded add_node_step[OF False]]
    from P1 have inb: "\<not> length row \<le> x" by (auto split: if_splits)
    show ?thesis
    proof (cases "x = (mx' + 1) mod 2 ^ 64")
      case True
      from P1 inb obtain sts' where n': "n' = Node k val sts'"
        by (auto split: option.splits sum.splits)
      from "1.prems"(2) show ?thesis
        unfolding n' in_node_end[OF True] get_node_end[OF True] by simp
    next
      case xne: False
      note P2 = "1.prems"(2)[unfolded in_node_step[OF xne]]
      from P2 have inb': "\<not> length row' \<le> x" and ne: "sts \<noteq> []"
        by (auto split: if_splits)
      from P2 inb' ne obtain j where
        fj: "find_state (row' ! x) sts = Some j" and
        subin: "in_node d row' mx' (x + 1) (sts ! j) = Inr True"
        by (auto split: option.splits)
      show ?thesis
      proof (cases "find_state (row ! x) sts")
        case None
        with P1 inb obtain m where
          n': "n' = Node k val (sts @ [m])"
          by (auto split: sum.splits)
        from fj have fj': "find_state (row' ! x) (sts @ [m]) = Some j"
          by (rule find_state_append)
        from find_state_Some[OF fj] have "j < length sts" by simp
        then have nth: "(sts @ [m]) ! j = sts ! j" by (simp add: nth_append)
        show ?thesis
          unfolding n' in_node_step[OF xne] get_node_step[OF xne]
          using inb' fj fj' nth subin by simp
      next
        case (Some i)
        with P1 inb obtain m where
          sub: "add_node d row v mx (x + 1) (sts ! i) = Inr m" and
          n': "n' = Node k val (sts[i := m])"
          by (auto split: sum.splits)
        from find_state_Some[OF Some] have il: "i < length sts" by simp
        from add_node_key[OF sub] have km: "key m = key (sts ! i)" .
        have fj': "find_state (row' ! x) (sts[i := m]) = Some j"
          using find_state_update[OF il km] fj by simp
        from find_state_Some[OF fj] have jl: "j < length sts" by simp
        show ?thesis
        proof (cases "j = i")
          case True
          from "1.IH"(2)[OF False inb Some sub] subin True
          have "get_node row' mx' (x + 1) m = get_node row' mx' (x + 1) (sts ! i)
                \<and> in_node d row' mx' (x + 1) m = Inr True" by simp
          then show ?thesis
            unfolding n' in_node_step[OF xne] get_node_step[OF xne]
            using inb' fj fj' True il ne by simp
        next
          case False
          then have "sts[i := m] ! j = sts ! j" by simp
          then show ?thesis
            unfolding n' in_node_step[OF xne] get_node_step[OF xne]
            using inb' fj fj' subin ne by simp
        qed
      qed
    qed
  qed
qed

text \<open>
  Claim C9, as the code has it.  A prefix "stores a value" for the tree when \<^verbatim>\<open>in\<close>
  answers true, that is when the node at its end holds a value other than \<^verbatim>\<open>T()\<close>.
  Inserting at such a prefix fails with the collision error; and after a successful
  insert every prefix that stored a value before still stores the same value.
\<close>

theorem tree_add_keeps_stored_values:
  "(\<forall>t'. tree_in d t row mx = Inr (True, t') \<longrightarrow> tree_add d t row v mx = Inl TreeCollision) \<and>
   (\<forall>t' row' mx' t''. tree_add d t row v mx = Inr t' \<longrightarrow> tree_in d t row' mx' = Inr (True, t'') \<longrightarrow>
      tree_get t' row' mx' = tree_get t row' mx' \<and> (\<exists>u. tree_in d t' row' mx' = Inr (True, u)))"
proof (rule conjI)
  show "\<forall>t'. tree_in d t row mx = Inr (True, t') \<longrightarrow> tree_add d t row v mx = Inl TreeCollision"
  proof (intro allI impI)
    fix t' assume "tree_in d t row mx = Inr (True, t')"
    then have "in_node d row (upper_bound row mx) 0 (root t) = Inr True"
      by (auto simp: tree_in_def split: sum.splits)
    from in_node_collision[OF this] show "tree_add d t row v mx = Inl TreeCollision"
      by (simp add: tree_add_def)
  qed
next
  show "\<forall>t' row' mx' t''. tree_add d t row v mx = Inr t' \<longrightarrow> tree_in d t row' mx' = Inr (True, t'') \<longrightarrow>
      tree_get t' row' mx' = tree_get t row' mx' \<and> (\<exists>u. tree_in d t' row' mx' = Inr (True, u))"
  proof (intro allI impI)
    fix t' row' mx' t''
    assume a: "tree_add d t row v mx = Inr t'" and i: "tree_in d t row' mx' = Inr (True, t'')"
    from a obtain n where n: "add_node d row v (upper_bound row mx) 0 (root t) = Inr n"
      and t': "t' = t\<lparr>root := n\<rparr>"
      by (auto simp: tree_add_def split: sum.splits)
    from i have "in_node d row' (upper_bound row' mx') 0 (root t) = Inr True"
      by (auto simp: tree_in_def split: sum.splits)
    from add_node_preserves[OF n this] t'
    show "tree_get t' row' mx' = tree_get t row' mx' \<and> (\<exists>u. tree_in d t' row' mx' = Inr (True, u))"
      by (simp add: tree_get_def tree_in_def)
  qed
qed

lemmas tree_eval =
  tree_add_def tree_in_def tree_get_def empty_tree_def upper_bound_def SIZE_MAX_def
  add_node_step add_node_end in_node_step in_node_end get_node_step get_node_end

text \<open>
  The theorem at a tree that stores 1 for the row \<open>[a]\<close>: a second insert for \<open>[a]\<close>
  collides, and an insert for \<open>[b]\<close> succeeds and leaves the value of \<open>[a]\<close> alone.
\<close>

theorem tree_add_keeps_stored_values_witness:
  "tree_in (0::real) \<lparr>root = Node [] 0 [Node ''a'' 1 []], hits = 0, misses = 0\<rparr> [''a''] SIZE_MAX
     = Inr (True, \<lparr>root = Node [] 0 [Node ''a'' 1 []], hits = 1, misses = 0\<rparr>) \<and>
   tree_add (0::real) \<lparr>root = Node [] 0 [Node ''a'' 1 []], hits = 0, misses = 0\<rparr> [''a''] 5 SIZE_MAX
     = Inl TreeCollision \<and>
   tree_add (0::real) \<lparr>root = Node [] 0 [Node ''a'' 1 []], hits = 0, misses = 0\<rparr> [''b''] 2 SIZE_MAX
     = Inr \<lparr>root = Node [] 0 [Node ''a'' 1 [], Node ''b'' 2 []], hits = 0, misses = 0\<rparr> \<and>
   tree_get \<lparr>root = Node [] 0 [Node ''a'' 1 [], Node ''b'' 2 []], hits = 0, misses = 0\<rparr> [''a''] SIZE_MAX
     = tree_get \<lparr>root = Node [] (0::real) [Node ''a'' 1 []], hits = 0, misses = 0\<rparr> [''a''] SIZE_MAX"
proof -
  let ?t = "\<lparr>root = Node [] (0::real) [Node ''a'' 1 []], hits = 0, misses = 0\<rparr>"
  let ?t' = "\<lparr>root = Node [] (0::real) [Node ''a'' 1 [], Node ''b'' 2 []], hits = 0, misses = 0\<rparr>"
  have i: "tree_in 0 ?t [''a''] SIZE_MAX = Inr (True, ?t\<lparr>hits := 1\<rparr>)"
    by (simp add: tree_eval)
  have a: "tree_add 0 ?t [''b''] 2 SIZE_MAX = Inr ?t'"
    by (simp add: tree_eval)
  from tree_add_keeps_stored_values[of 0 ?t "[''a'']" SIZE_MAX 5] i
  have c: "tree_add 0 ?t [''a''] 5 SIZE_MAX = Inl TreeCollision" by blast
  from tree_add_keeps_stored_values[of 0 ?t "[''b'']" SIZE_MAX 2] a i
  have g: "tree_get ?t' [''a''] SIZE_MAX = tree_get ?t [''a''] SIZE_MAX" by blast
  from i a c g show ?thesis by simp
qed

text \<open>
  Claim C9 as stated fails where the stored value is the default \<^verbatim>\<open>T()\<close>: the row
  \<open>[a]\<close> is inserted with the score 0, a second insert for the same row with the score 1
  succeeds, and the tree then answers 1.
\<close>

theorem tree_add_replaces_default_counterexample:
  "tree_add (0::real) (empty_tree 0) [''a''] 0 SIZE_MAX
     = Inr \<lparr>root = Node [] 0 [Node ''a'' 0 []], hits = 0, misses = 0\<rparr> \<and>
   tree_add (0::real) \<lparr>root = Node [] 0 [Node ''a'' 0 []], hits = 0, misses = 0\<rparr> [''a''] 1 SIZE_MAX
     = Inr \<lparr>root = Node [] 0 [Node ''a'' 1 []], hits = 0, misses = 0\<rparr> \<and>
   tree_get \<lparr>root = Node [] (0::real) [Node ''a'' 1 []], hits = 0, misses = 0\<rparr> [''a''] SIZE_MAX = Inr 1"
  by (simp add: tree_eval)

section \<open>Properties of the k-anonymity verifier\<close>

declare k_tree.simps [simp del]

lemma emplace_path_length: "length (emplace_path tree i ks) = length ks"
  by (induction tree arbitrary: i ks) auto

lemma emplace_path_nth:
  "i + length tree \<le> length ks \<Longrightarrow> r < length ks \<Longrightarrow>
   emplace_path tree i ks ! r =
     (if i \<le> r \<and> r < i + length tree then insert (tree ! (r - i)) (ks ! r) else ks ! r)"
proof (induction tree arbitrary: i ks)
  case Nil
  then show ?case by auto
next
  case (Cons a tree)
  have "emplace_path (a # tree) i ks ! r = emplace_path tree (i + 1) (ks[i := insert a (ks ! i)]) ! r"
    by simp
  also have "\<dots> = (if i + 1 \<le> r \<and> r < i + 1 + length tree
                   then insert (tree ! (r - (i + 1))) (ks[i := insert a (ks ! i)] ! r)
                   else ks[i := insert a (ks ! i)] ! r)"
    using Cons.prems by (intro Cons.IH) auto
  also have "\<dots> = (if i \<le> r \<and> r < i + length (a # tree) then insert ((a # tree) ! (r - i)) (ks ! r) else ks ! r)"
  proof (cases "r = i")
    case True
    with Cons.prems show ?thesis by simp
  next
    case False
    then show ?thesis by (auto simp: nth_Cons')
  qed
  finally show ?case .
qed

lemma exts_full:
  "length tree = length ms \<Longrightarrow> distinct tree \<Longrightarrow> exts ms tree = {tree}"
  by (auto simp: exts_def)

lemma exts_step:
  assumes "length tree < length ms" "distinct tree"
  shows "exts ms tree =
           (\<Union>opt\<in>{opt \<in> set (ms ! length tree). opt \<notin> set tree}. exts ms (tree @ [opt]))"
proof (intro set_eqI iffI)
  fix p assume p: "p \<in> exts ms tree"
  let ?x = "length tree"
  from p assms have len: "length p = length ms" and d: "distinct p" and tk: "take ?x p = tree"
    and mem: "\<forall>i<length ms. ?x \<le> i \<longrightarrow> p ! i \<in> set (ms ! i)"
    by (auto simp: exts_def)
  from assms len have xl: "?x < length p" by simp
  have tk': "take (Suc ?x) p = tree @ [p ! ?x]"
    using take_Suc_conv_app_nth[OF xl] tk by simp
  have notin: "p ! ?x \<notin> set tree"
  proof
    assume "p ! ?x \<in> set tree"
    then have "p ! ?x \<in> set (take ?x p)" using tk by simp
    then obtain j where "j < ?x" "p ! j = p ! ?x"
      by (auto simp: in_set_conv_nth)
    with d xl show False by (auto simp: nth_eq_iff_index_eq)
  qed
  have "p \<in> exts ms (tree @ [p ! ?x])"
    using len d tk' mem by (auto simp: exts_def)
  moreover have "p ! ?x \<in> set (ms ! ?x)" using mem assms by simp
  ultimately show "p \<in> (\<Union>opt\<in>{opt \<in> set (ms ! ?x). opt \<notin> set tree}. exts ms (tree @ [opt]))"
    using notin by blast
next
  fix p
  let ?x = "length tree"
  assume "p \<in> (\<Union>opt\<in>{opt \<in> set (ms ! ?x). opt \<notin> set tree}. exts ms (tree @ [opt]))"
  then obtain opt where opt: "opt \<in> set (ms ! ?x)" "opt \<notin> set tree"
    and p: "p \<in> exts ms (tree @ [opt])" by blast
  from p have len: "length p = length ms" and d: "distinct p"
    and tk: "take (Suc ?x) p = tree @ [opt]"
    and mem: "\<forall>i<length ms. Suc ?x \<le> i \<longrightarrow> p ! i \<in> set (ms ! i)"
    by (auto simp: exts_def)
  from assms len have xl: "?x < length p" by simp
  from tk have "take ?x (take (Suc ?x) p) = take ?x (tree @ [opt])" by simp
  then have tk0: "take ?x p = tree" by (simp add: min_def)
  from tk have "take (Suc ?x) p ! ?x = (tree @ [opt]) ! ?x" by simp
  then have px: "p ! ?x = opt" by simp
  have "\<forall>i<length ms. ?x \<le> i \<longrightarrow> p ! i \<in> set (ms ! i)"
  proof (intro allI impI)
    fix i assume "i < length ms" "?x \<le> i"
    then show "p ! i \<in> set (ms ! i)"
      using mem px opt(1) by (cases "i = ?x") auto
  qed
  with len d tk0 show "p \<in> exts ms tree" by (auto simp: exts_def)
qed

lemma fold_options:
  fixes ks :: "nat set list"
  assumes "\<forall>opt\<in>set opts. opt \<notin> set tree \<longrightarrow> (\<forall>ks'::nat set list. length ks' = n \<longrightarrow>
               length (k_tree ms (tree @ [opt]) ks' (x + 1)) = n \<and>
               (\<forall>r<n. k_tree ms (tree @ [opt]) ks' (x + 1) ! r = ks' ! r \<union> {p ! r | p. p \<in> exts ms (tree @ [opt])}))"
    and "length ks = n"
  shows "length (fold (\<lambda>option ks'. if option \<in> set tree then ks'
                                   else k_tree ms (tree @ [option]) ks' (x + 1)) opts ks) = n \<and>
         (\<forall>r<n. fold (\<lambda>option ks'. if option \<in> set tree then ks'
                                   else k_tree ms (tree @ [option]) ks' (x + 1)) opts ks ! r =
                 ks ! r \<union> (\<Union>opt\<in>{opt \<in> set opts. opt \<notin> set tree}. {p ! r | p. p \<in> exts ms (tree @ [opt])}))"
  using assms
proof (induction opts arbitrary: ks)
  case Nil
  then show ?case by simp
next
  case (Cons a opts)
  let ?F = "\<lambda>option ks'. if option \<in> set tree then ks' else k_tree ms (tree @ [option]) ks' (x + 1)"
  from Cons.prems(1) have H': "\<forall>opt\<in>set opts. opt \<notin> set tree \<longrightarrow> (\<forall>ks'::nat set list. length ks' = n \<longrightarrow>
               length (k_tree ms (tree @ [opt]) ks' (x + 1)) = n \<and>
               (\<forall>r<n. k_tree ms (tree @ [opt]) ks' (x + 1) ! r = ks' ! r \<union> {p ! r | p. p \<in> exts ms (tree @ [opt])}))"
    by simp
  note IH = Cons.IH[OF H']
  show ?case
  proof (cases "a \<in> set tree")
    case True
    have eq: "{opt \<in> set (a # opts). opt \<notin> set tree} = {opt \<in> set opts. opt \<notin> set tree}"
      using True by auto
    show ?thesis unfolding eq using IH[OF Cons.prems(2)] True by simp
  next
    case False
    let ?ks1 = "k_tree ms (tree @ [a]) ks (x + 1)"
    from Cons.prems(1) False Cons.prems(2)
    have l1: "length ?ks1 = n"
      and v1: "\<forall>r<n. ?ks1 ! r = ks ! r \<union> {p ! r | p. p \<in> exts ms (tree @ [a])}"
      by auto
    have eq: "{opt \<in> set (a # opts). opt \<notin> set tree} = insert a {opt \<in> set opts. opt \<notin> set tree}"
      using False by auto
    have f: "fold ?F (a # opts) ks = fold ?F opts ?ks1" using False by simp
    show ?thesis unfolding eq f using IH[OF l1] v1 by auto
  qed
qed

lemma k_tree_collects:
  "length tree = x \<Longrightarrow> x \<le> length ms \<Longrightarrow> distinct tree \<Longrightarrow> length ks = length ms \<Longrightarrow>
   length (k_tree ms tree ks x) = length ms \<and>
   (\<forall>r<length ms. k_tree ms tree ks x ! r = ks ! r \<union> {p ! r | p. p \<in> exts ms tree})"
proof (induction ms tree ks x rule: k_tree.induct)
  case (1 matches tree ks x)
  show ?case
  proof (cases "x = length matches")
    case True
    have kt: "k_tree matches tree ks x = emplace_path tree 0 ks"
      by (subst k_tree.simps) (simp add: True)
    have ex: "exts matches tree = {tree}"
      using exts_full "1.prems" True by simp
    show ?thesis unfolding kt ex
      using "1.prems" True by (simp add: emplace_path_length emplace_path_nth)
  next
    case False
    with "1.prems" have lt: "x < length matches" by simp
    then have nlt: "\<not> length matches < x" by simp
    have kt: "k_tree matches tree ks x =
      fold (\<lambda>option ks'. if option \<in> set tree then ks'
                         else k_tree matches (tree @ [option]) ks' (x + 1)) (matches ! x) ks"
      by (subst k_tree.simps) (simp add: False nlt)
    have H: "\<forall>opt\<in>set (matches ! x). opt \<notin> set tree \<longrightarrow> (\<forall>ks'::nat set list. length ks' = length matches \<longrightarrow>
               length (k_tree matches (tree @ [opt]) ks' (x + 1)) = length matches \<and>
               (\<forall>r<length matches. k_tree matches (tree @ [opt]) ks' (x + 1) ! r =
                    ks' ! r \<union> {p ! r | p. p \<in> exts matches (tree @ [opt])}))"
    proof (intro ballI impI allI)
      fix opt and ks' :: "nat set list"
      assume o: "opt \<in> set (matches ! x)" "opt \<notin> set tree" and l: "length ks' = length matches"
      show "length (k_tree matches (tree @ [opt]) ks' (x + 1)) = length matches \<and>
               (\<forall>r<length matches. k_tree matches (tree @ [opt]) ks' (x + 1) ! r =
                    ks' ! r \<union> {p ! r | p. p \<in> exts matches (tree @ [opt])})"
        using "1.IH"[OF False nlt o(1) o(2)] "1.prems" lt o l by simp
    qed
    from fold_options[of "matches ! x" tree "length matches" matches x ks, OF H "1.prems"(4)]
    have res: "length (k_tree matches tree ks x) = length matches \<and>
         (\<forall>r<length matches. k_tree matches tree ks x ! r =
                 ks ! r \<union> (\<Union>opt\<in>{opt \<in> set (matches ! x). opt \<notin> set tree}.
                              {p ! r | p. p \<in> exts matches (tree @ [opt])}))"
      unfolding kt by blast
    have st: "exts matches tree =
           (\<Union>opt\<in>{opt \<in> set (matches ! x). opt \<notin> set tree}. exts matches (tree @ [opt]))"
      using exts_step[of tree matches] "1.prems" lt by simp
    have "\<And>r. {p ! r | p. p \<in> exts matches tree} =
        (\<Union>opt\<in>{opt \<in> set (matches ! x). opt \<notin> set tree}. {p ! r | p. p \<in> exts matches (tree @ [opt])})"
      unfolding st by blast
    with res show ?thesis by simp
  qed
qed

lemma exts_K_spec:
  assumes "r < length ms"
  shows "{p ! r | p. p \<in> exts ms []} = K_spec ms r"
proof (intro set_eqI iffI)
  fix v assume "v \<in> {p ! r | p. p \<in> exts ms []}"
  then obtain p where p: "p \<in> exts ms []" and v: "v = p ! r" by blast
  from p have len: "length p = length ms" and d: "distinct p"
    and mem: "\<forall>i<length ms. p ! i \<in> set (ms ! i)" by (auto simp: exts_def)
  have "inj_on (\<lambda>i. p ! i) {..<length ms}"
    using d len by (auto simp: inj_on_def nth_eq_iff_index_eq)
  with mem v show "v \<in> K_spec ms r" unfolding K_spec_def by blast
next
  fix v assume "v \<in> K_spec ms r"
  then obtain \<sigma> where inj: "inj_on \<sigma> {..<length ms}" and mem: "\<forall>i<length ms. \<sigma> i \<in> set (ms ! i)"
    and v: "v = \<sigma> r" unfolding K_spec_def by blast
  let ?p = "map \<sigma> [0..<length ms]"
  have "distinct ?p" using inj by (simp add: distinct_map atLeast0LessThan)
  then have "?p \<in> exts ms []" using mem by (simp add: exts_def)
  moreover have "?p ! r = v" using assms v by simp
  ultimately show "v \<in> {p ! r | p. p \<in> exts ms []}" by blast
qed

lemma k_tree_K_spec:
  "length (k_tree ms [] (replicate (length ms) {}) 0) = length ms \<and>
   (\<forall>r<length ms. k_tree ms [] (replicate (length ms) {}) 0 ! r = K_spec ms r)"
  using k_tree_collects[of "[]" 0 ms "replicate (length ms) {}"] exts_K_spec[of _ ms]
  by simp

lemma av_matches_prefix:
  "av_matches w orig cc rs acc g = Inr (ms, g') \<Longrightarrow>
   length ms = length acc + length rs \<and> take (length acc) ms = acc"
proof (induction rs arbitrary: acc g)
  case Nil
  then show ?case by simp
next
  case (Cons r rs)
  from Cons.prems obtain row match g1 where
    "av_matches w orig cc rs (acc @ [match]) g1 = Inr (ms, g')"
    by (auto split: sum.splits prod.splits)
  from Cons.IH[OF this] have l: "length ms = length acc + 1 + length rs"
    and t: "take (length acc + 1) ms = acc @ [match]" by simp_all
  from t have "take (length acc) (take (length acc + 1) ms) = take (length acc) (acc @ [match])"
    by simp
  then have "take (length acc) ms = acc" by (simp add: min_def)
  with l show ?case by simp
qed

lemma k_matches_av_matches:
  "k_matches w orig k cc rs acc g = Inr (Some ms, g') \<longleftrightarrow>
   av_matches w orig cc rs acc g = Inr (ms, g') \<and> (\<forall>i<length ms. length acc \<le> i \<longrightarrow> k \<le> length (ms ! i))"
proof (induction rs arbitrary: acc g)
  case Nil
  then show ?case by auto
next
  case (Cons r rs)
  show ?case
  proof (cases "construct_view w r")
    case (Inl e)
    then show ?thesis by simp
  next
    case (Inr row)
    show ?thesis
    proof (cases "match_row orig row cc g")
      case (Inl e)
      with Inr show ?thesis by simp
    next
      case mr: (Inr res)
      obtain match g1 where res: "res = (match, g1)" by (cases res)
      show ?thesis
      proof (cases "length match < k")
        case True
        have lhs: "k_matches w orig k cc (r # rs) acc g \<noteq> Inr (Some ms, g')"
          using Inr mr res True by simp
        have "\<not> (av_matches w orig cc (r # rs) acc g = Inr (ms, g') \<and>
                 (\<forall>i<length ms. length acc \<le> i \<longrightarrow> k \<le> length (ms ! i)))"
        proof
          assume a: "av_matches w orig cc (r # rs) acc g = Inr (ms, g') \<and>
                 (\<forall>i<length ms. length acc \<le> i \<longrightarrow> k \<le> length (ms ! i))"
          then have av: "av_matches w orig cc rs (acc @ [match]) g1 = Inr (ms, g')"
            using Inr mr res by simp
          from av_matches_prefix[OF av] have l: "length acc < length ms"
            and t: "take (length acc + 1) ms = acc @ [match]" by simp_all
          from t have "take (length acc + 1) ms ! length acc = (acc @ [match]) ! length acc" by simp
          then have "ms ! length acc = match" by simp
          with a l True show False by auto
        qed
        with lhs show ?thesis by blast
      next
        case False
        have lhs: "k_matches w orig k cc (r # rs) acc g = k_matches w orig k cc rs (acc @ [match]) g1"
          using Inr mr res False by simp
        have rhs: "av_matches w orig cc (r # rs) acc g = av_matches w orig cc rs (acc @ [match]) g1"
          using Inr mr res by simp
        have "(av_matches w orig cc rs (acc @ [match]) g1 = Inr (ms, g') \<and>
                 (\<forall>i<length ms. length (acc @ [match]) \<le> i \<longrightarrow> k \<le> length (ms ! i))) \<longleftrightarrow>
              (av_matches w orig cc rs (acc @ [match]) g1 = Inr (ms, g') \<and>
                 (\<forall>i<length ms. length acc \<le> i \<longrightarrow> k \<le> length (ms ! i)))"
        proof (cases "av_matches w orig cc rs (acc @ [match]) g1 = Inr (ms, g')")
          case av: True
          from av_matches_prefix[OF av] have l: "length acc < length ms"
            and t: "take (length acc + 1) ms = acc @ [match]" by simp_all
          from t have "take (length acc + 1) ms ! length acc = (acc @ [match]) ! length acc" by simp
          then have m: "ms ! length acc = match" by simp
          have "\<And>i. length acc \<le> i \<longleftrightarrow> i = length acc \<or> length (acc @ [match]) \<le> i" by auto
          then show ?thesis using m False av by (metis not_less)
        next
          case False
          then show ?thesis by simp
        qed
        then show ?thesis unfolding lhs rhs using Cons.IH[of "acc @ [match]" g1] by simp
      qed
    qed
  qed
qed


lemma match_row_no_cache:
  "\<not> cache g \<Longrightarrow> match_row orig row cc g = Inr (m, g1) \<Longrightarrow> g1 = g"
  by (auto simp: match_row_def split: sum.splits)

lemma av_matches_no_cache:
  "\<not> cache g \<Longrightarrow> av_matches w orig cc rs acc g = Inr (ms, g') \<Longrightarrow>
   g' = g \<and> (\<forall>j<length rs. \<exists>row. construct_view w (rs ! j) = Inr row \<and>
                  match_row orig row cc g = Inr (ms ! (length acc + j), g))"
proof (induction rs arbitrary: acc)
  case Nil
  then show ?case by simp
next
  case (Cons r rs)
  from Cons.prems(2) obtain row match g1 where cv: "construct_view w r = Inr row"
    and mr: "match_row orig row cc g = Inr (match, g1)"
    and av: "av_matches w orig cc rs (acc @ [match]) g1 = Inr (ms, g')"
    by (auto split: sum.splits prod.splits)
  from match_row_no_cache[OF Cons.prems(1) mr] have g1: "g1 = g" .
  from Cons.IH[OF Cons.prems(1) av[unfolded g1]]
  have g': "g' = g" and rest: "\<forall>j<length rs. \<exists>row. construct_view w (rs ! j) = Inr row \<and>
                  match_row orig row cc g = Inr (ms ! (length (acc @ [match]) + j), g)" by simp_all
  from av_matches_prefix[OF av] have "take (length acc + 1) ms = acc @ [match]" by simp
  then have "take (length acc + 1) ms ! length acc = (acc @ [match]) ! length acc" by simp
  then have m0: "ms ! length acc = match" by simp
  have "\<forall>j<length (r # rs). \<exists>row. construct_view w ((r # rs) ! j) = Inr row \<and>
                  match_row orig row cc g = Inr (ms ! (length acc + j), g)"
  proof (intro allI impI)
    fix j assume j: "j < length (r # rs)"
    show "\<exists>row. construct_view w ((r # rs) ! j) = Inr row \<and>
                  match_row orig row cc g = Inr (ms ! (length acc + j), g)"
    proof (cases j)
      case 0
      with cv mr g1 m0 show ?thesis by simp
    next
      case (Suc j')
      with j rest show ?thesis by simp
    qed
  qed
  with g' show ?case by simp
qed

lemmas table_eval = one_column_def plain_column_def construct_view_def index_def get_column_def
  columns_def default_column_def SIZE_MAX_def empty_domain_def


lemmas metric_eval = match_row_def field_matches_def k_anonymity_def minimal_distortion_def
  certainty_score_def score_cached_def score_store_def cs_cell_def float_eval av_k_anonymity_def


lemma k_tree_four_rows: "k_tree [[0, 1, 2, 3], [0, 1], [2, 3], [2, 3]] [] (replicate 4 {}) 0 = [{0,1},{0,1},{2,3},{2,3}]"
  by (simp add: k_tree.simps numeral_eq_Suc insert_commute)

lemma k_matches_four_rows: "k_matches four_rows_working four_rows_original 2 0 [0..<4] [] (globals0 False) = Inr (Some [[0, 1, 2, 3], [0, 1], [2, 3], [2, 3]], globals0 False)"
  by (simp add: four_rows_working_def four_rows_original_def table_eval globals0_def match_row_def field_matches_def upt_rec)

lemma k_anonymity_four_rows: "k_anonymity four_rows_working four_rows_original 2 0 (globals0 False) = Inr (True, globals0 False)"
proof -
  have r: "rows four_rows_working = 4" and d: "default_column four_rows_working 0 = 0"
    by (simp_all add: four_rows_working_def one_column_def plain_column_def default_column_def SIZE_MAX_def)
  have l: "length [[0, 1, 2, 3], [0, 1], [2, 3], [2, 3::nat]] = 4" by simp
  show ?thesis
    unfolding k_anonymity_def r d k_matches_four_rows sum.case prod.case option.case l k_tree_four_rows by simp
qed

lemma k_matches_four_rows_cached: "map_sum id fst (k_matches four_rows_working four_rows_original 2 0 [0..<4] [] (globals0 True)) = Inr (Some [[0, 1, 2, 3], [0, 1], [2, 3], [2, 3]])"
  by (simp add: four_rows_working_def four_rows_original_def table_eval globals0_def match_row_def field_matches_def upt_rec tree_eval)

lemma k_tree_three_rows: "k_tree [[0, 1, 2], [1, 2], [1, 2]] [] (replicate 3 {}) 0 = [{0},{1,2},{1,2}]"
  by (simp add: k_tree.simps numeral_eq_Suc insert_commute)

lemma k_matches_three_rows: "k_matches three_rows_working three_rows_original 2 0 [0..<3] [] (globals0 False) = Inr (Some [[0, 1, 2], [1, 2], [1, 2]], globals0 False)"
  by (simp add: three_rows_working_def three_rows_original_def table_eval globals0_def match_row_def field_matches_def upt_rec)

lemma k_anonymity_three_rows: "k_anonymity three_rows_working three_rows_original 2 0 (globals0 False) = Inr (False, globals0 False)"
proof -
  have r: "rows three_rows_working = 3" and d: "default_column three_rows_working 0 = 0"
    by (simp_all add: three_rows_working_def one_column_def plain_column_def default_column_def SIZE_MAX_def)
  have l: "length [[0, 1, 2], [1, 2], [1, 2::nat]] = 3" by simp
  show ?thesis
    unfolding k_anonymity_def r d k_matches_three_rows sum.case prod.case option.case l k_tree_three_rows by simp
qed


text \<open>
  Claim C1, the characterisation.  \<open>av_matches\<close> is the loop that calls \<^verbatim>\<open>match_row\<close>
  for every row of the working table in turn and collects what the calls return, the
  match sets \<open>M[r]\<close>.  \<^verbatim>\<open>k_anonymity\<close> returns true exactly when all these calls
  return, every match set has at least \<open>k\<close> entries, and every candidate set \<open>K[r]\<close>
  over the injective assignments has at least \<open>k\<close> elements.  (With the cache switched
  off, \<open>av_matches_no_cache\<close> reads each \<open>M[r]\<close> as the result of \<^verbatim>\<open>match_row\<close> on
  row \<open>r\<close> in the unchanged globals.)
\<close>

theorem k_anonymity_iff:
  "k_anonymity w orig k cc g = Inr (True, g') \<longleftrightarrow>
   (\<exists>ms. av_matches w orig (default_column w cc) [0..<rows w] [] g = Inr (ms, g') \<and>
         (\<forall>r<length ms. k \<le> length (ms ! r)) \<and>
         (\<forall>r<length ms. k \<le> card (K_spec ms r)))"
proof
  assume a: "k_anonymity w orig k cc g = Inr (True, g')"
  then obtain ms where km: "k_matches w orig k (default_column w cc) [0..<rows w] [] g = Inr (Some ms, g')"
    and la: "list_all (\<lambda>solutions. \<not> card solutions < k) (k_tree ms [] (replicate (length ms) {}) 0)"
    by (auto simp: k_anonymity_def split: sum.splits prod.splits option.splits)
  from km have av: "av_matches w orig (default_column w cc) [0..<rows w] [] g = Inr (ms, g')"
    and ln: "\<forall>r<length ms. k \<le> length (ms ! r)"
    by (simp_all add: k_matches_av_matches)
  from la k_tree_K_spec[of ms] have "\<forall>r<length ms. k \<le> card (K_spec ms r)"
    by (auto simp: list_all_length not_less)
  with av ln show "\<exists>ms. av_matches w orig (default_column w cc) [0..<rows w] [] g = Inr (ms, g') \<and>
         (\<forall>r<length ms. k \<le> length (ms ! r)) \<and> (\<forall>r<length ms. k \<le> card (K_spec ms r))"
    by blast
next
  assume "\<exists>ms. av_matches w orig (default_column w cc) [0..<rows w] [] g = Inr (ms, g') \<and>
         (\<forall>r<length ms. k \<le> length (ms ! r)) \<and> (\<forall>r<length ms. k \<le> card (K_spec ms r))"
  then obtain ms where av: "av_matches w orig (default_column w cc) [0..<rows w] [] g = Inr (ms, g')"
    and ln: "\<forall>r<length ms. k \<le> length (ms ! r)"
    and ks: "\<forall>r<length ms. k \<le> card (K_spec ms r)" by blast
  from av ln have km: "k_matches w orig k (default_column w cc) [0..<rows w] [] g = Inr (Some ms, g')"
    by (simp add: k_matches_av_matches)
  from ks k_tree_K_spec[of ms]
  have "list_all (\<lambda>solutions. \<not> card solutions < k) (k_tree ms [] (replicate (length ms) {}) 0)"
    by (auto simp: list_all_length not_less)
  with km show "k_anonymity w orig k cc g = Inr (True, g')"
    by (simp add: k_anonymity_def)
qed

text \<open>
  The theorem at the table (*),(M),(F),(F) against (M),(M),(F),(F) with \<open>k = 2\<close>: the
  verifier answers true, hence the candidate sets of the first and of the last row have
  two elements at least.
\<close>

theorem k_anonymity_iff_witness:
  "k_anonymity four_rows_working four_rows_original 2 0 (globals0 False) = Inr (True, globals0 False) \<and>
   2 \<le> card (K_spec [[0, 1, 2, 3], [0, 1], [2, 3], [2, 3]] 0) \<and>
   2 \<le> card (K_spec [[0, 1, 2, 3], [0, 1], [2, 3], [2, 3]] 3)"
proof -
  have av: "av_matches four_rows_working four_rows_original
              (default_column four_rows_working 0) [0..<rows four_rows_working] [] (globals0 False)
            = Inr ([[0, 1, 2, 3], [0, 1], [2, 3], [2, 3]], globals0 False)"
    by (simp add: four_rows_working_def four_rows_original_def table_eval globals0_def
          match_row_def field_matches_def upt_rec)
  from k_anonymity_iff[of four_rows_working four_rows_original 2 0 "globals0 False" "globals0 False"]
    k_anonymity_four_rows av
  have "\<forall>r<length [[0, 1, 2, 3], [0, 1], [2, 3], [2, 3::nat]].
          2 \<le> card (K_spec [[0, 1, 2, 3], [0, 1], [2, 3], [2, 3]] r)"
    by simp
  then have "2 \<le> card (K_spec [[0, 1, 2, 3], [0, 1], [2, 3], [2, 3]] 0)"
    and "2 \<le> card (K_spec [[0, 1, 2, 3], [0, 1], [2, 3], [2, 3]] 3)" by simp_all
  with k_anonymity_four_rows show ?thesis by simp
qed

text \<open>
  Claim C1 says that \<^verbatim>\<open>k_anonymity\<close> answers false on that table.  It answers true,
  with the cache off and with the cache on: the rows 0 and 1 can each be assigned the
  original 0 or 1 and the rows 2 and 3 the original 2 or 3, so every candidate set has two
  elements.
\<close>

theorem k_anonymity_four_rows_counterexample:
  "k_anonymity four_rows_working four_rows_original 2 0 (globals0 False) = Inr (True, globals0 False) \<and>
   map_sum id fst (k_anonymity four_rows_working four_rows_original 2 0 (globals0 True)) = Inr True"
proof -
  have r: "rows four_rows_working = 4" and d: "default_column four_rows_working 0 = 0"
    by (simp_all add: four_rows_working_def one_column_def plain_column_def default_column_def SIZE_MAX_def)
  have l: "length [[0, 1, 2, 3], [0, 1], [2, 3], [2, 3::nat]] = 4" by simp
  from k_matches_four_rows_cached obtain g1 where
    km: "k_matches four_rows_working four_rows_original 2 0 [0..<4] [] (globals0 True)
         = Inr (Some [[0, 1, 2, 3], [0, 1], [2, 3], [2, 3]], g1)"
    by (cases "k_matches four_rows_working four_rows_original 2 0 [0..<4] [] (globals0 True)") auto
  have "map_sum id fst (k_anonymity four_rows_working four_rows_original 2 0 (globals0 True)) = Inr True"
    unfolding k_anonymity_def r d km sum.case prod.case option.case l k_tree_four_rows by simp
  with k_anonymity_four_rows show ?thesis by simp
qed

text \<open>
  A table on which every row has two matches at least and the verifier still answers false:
  (*),(F),(F) against (M),(F),(F), where the suppressed row can only be the original 0.
\<close>

lemma k_anonymity_three_rows_trap:
  "k_matches three_rows_working three_rows_original 2 0 [0..<3] [] (globals0 False)
     = Inr (Some [[0, 1, 2], [1, 2], [1, 2]], globals0 False) \<and>
   k_anonymity three_rows_working three_rows_original 2 0 (globals0 False)
     = Inr (False, globals0 False)"
  using k_matches_three_rows k_anonymity_three_rows by simp

section \<open>The score cache\<close>

text \<open>
  Claim C3 at the table (A),(*) with both cells suppressed, weights 1, caches empty.  Without
  the cache both metrics score 1: only the first row differs from the original.  With the
  cache the first row stores the score 1 under the key \<open>[*]\<close>; the second row has the
  same key, takes that score, and both metrics answer 2.
\<close>

theorem score_cache_changes_scores:
  "minimal_distortion starred_working starred_original (globals0 False) = Inr (Finite 1, globals0 False) \<and>
   map_sum id fst (minimal_distortion starred_working starred_original (globals0 True)) = Inr (Finite 2) \<and>
   certainty_score starred_working starred_original (globals0 False) = Inr (Finite 1, globals0 False) \<and>
   map_sum id fst (certainty_score starred_working starred_original (globals0 True)) = Inr (Finite 2)"
proof -
  have "minimal_distortion starred_working starred_original (globals0 False) = Inr (Finite 1, globals0 False)"
    by (simp add: starred_working_def starred_original_def table_eval globals0_def metric_eval upt_rec)
  moreover have "map_sum id fst (minimal_distortion starred_working starred_original (globals0 True)) = Inr (Finite 2)"
    by (simp add: starred_working_def starred_original_def table_eval globals0_def metric_eval
          upt_rec tree_eval)
  moreover have "certainty_score starred_working starred_original (globals0 False) = Inr (Finite 1, globals0 False)"
    by (simp add: starred_working_def starred_original_def table_eval globals0_def metric_eval upt_rec)
  moreover have "map_sum id fst (certainty_score starred_working starred_original (globals0 True)) = Inr (Finite 2)"
    by (simp add: starred_working_def starred_original_def table_eval globals0_def metric_eval
          upt_rec tree_eval)
  ultimately show ?thesis by simp
qed

section \<open>Mutations and the number of states\<close>

lemma mutations_plain:
  assumes "empty_domain (graph col)" "t_col col \<noteq> integer"
  shows "mutations v col False g = Inr ((if v = [] then [''*''] else [''*'', v]), g)"
  using assms by (simp add: mutations_def mutations_list_def)

lemma mutations_list_count:
  assumes "mutations_list v col = Inr ms"
    and "\<forall>r\<in>set (ranges col). out r \<noteq> ''*''"
  shows "count_list ms ''*'' =
     1 + count_list (if \<not> empty_domain (graph col) then find_path (graph col) v
                     else if v \<noteq> [] then [v] else []) ''*''"
proof -
  from assms(1) obtain rs where
    rs: "(if t_col col = integer then range_mutations v col else Inr []) = Inr rs" and
    ms: "ms = [''*''] @ (if \<not> empty_domain (graph col) then find_path (graph col) v
                         else if v \<noteq> [] then [v] else []) @ rs"
    by (auto simp: mutations_list_def Let_def split: sum.splits)
  have "set rs \<subseteq> out ` set (ranges col)"
    using rs by (auto simp: range_mutations_def split: if_splits sum.splits)
  with assms(2) have "''*'' \<notin> set rs" by (metis (no_types, lifting) imageE subsetD)
  then have "count_list rs ''*'' = 0" by (simp add: count_list_0_iff)
  then show ?thesis unfolding ms by simp
qed

lemma mutations_list_once:
  assumes "mutations_list v col = Inr ms"
    and "\<forall>r\<in>set (ranges col). out r \<noteq> ''*''"
  shows "count_list ms ''*'' = 1 \<longleftrightarrow>
     (if empty_domain (graph col) then v \<noteq> ''*'' else ''*'' \<notin> set (find_path (graph col) v))"
  unfolding mutations_list_count[OF assms] by (auto simp: count_list_0_iff)

text \<open>
  Claim C6, as the code has it.  In a column without hierarchy that is not of integers
  \<^verbatim>\<open>mutations\<close> returns, and the cell is among its own mutations unless it is empty.
  And whenever \<^verbatim>\<open>mutations\<close> returns, for any cell and any column whose ranges are
  written as \<^verbatim>\<open>Range\<close> writes them (none is written \<open>*\<close>), the symbol \<open>*\<close> is listed
  exactly once, with these exceptions only: without a hierarchy the cell \<open>*\<close> itself,
  which is listed after the symbol, and with a hierarchy a cell with a node named \<open>*\<close>
  on its path.
\<close>

theorem mutations_coverage:
  "(empty_domain (graph col) \<and> t_col col \<noteq> integer \<longrightarrow>
      (\<exists>ms. mutations v col False g = Inr (ms, g) \<and> (v \<in> set ms \<longleftrightarrow> v \<noteq> []))) \<and>
   (\<forall>ms g'. mutations v col False g = Inr (ms, g') \<and> (\<forall>r\<in>set (ranges col). out r \<noteq> ''*'') \<longrightarrow>
      (count_list ms ''*'' = 1 \<longleftrightarrow>
         (if empty_domain (graph col) then v \<noteq> ''*''
          else ''*'' \<notin> set (find_path (graph col) v))))"
proof (rule conjI)
  show "empty_domain (graph col) \<and> t_col col \<noteq> integer \<longrightarrow>
      (\<exists>ms. mutations v col False g = Inr (ms, g) \<and> (v \<in> set ms \<longleftrightarrow> v \<noteq> []))"
    by (auto simp: mutations_plain)
next
  show "\<forall>ms g'. mutations v col False g = Inr (ms, g') \<and> (\<forall>r\<in>set (ranges col). out r \<noteq> ''*'') \<longrightarrow>
      (count_list ms ''*'' = 1 \<longleftrightarrow>
         (if empty_domain (graph col) then v \<noteq> ''*''
          else ''*'' \<notin> set (find_path (graph col) v)))"
  proof (intro allI impI)
    fix ms g'
    assume a: "mutations v col False g = Inr (ms, g') \<and> (\<forall>r\<in>set (ranges col). out r \<noteq> ''*'')"
    then have ml: "mutations_list v col = Inr ms"
      by (auto simp: mutations_def split: sum.splits)
    from a have rg: "\<forall>r\<in>set (ranges col). out r \<noteq> ''*''" by simp
    show "count_list ms ''*'' = 1 \<longleftrightarrow>
         (if empty_domain (graph col) then v \<noteq> ''*''
          else ''*'' \<notin> set (find_path (graph col) v))"
      by (rule mutations_list_once[OF ml rg])
  qed
qed

text \<open>
  The theorem at the cell \<open>x\<close> of a quasi column of strings without hierarchy, and at
  the cell \<open>*\<close> of a column with the hierarchy Job / Blue / Mechanic, where the symbol
  is listed once.
\<close>

theorem mutations_coverage_witness:
  "mutations ''x'' (plain_column quasi (Finite 1) [''x'', ''y''] [''x'', ''y'']) False rng0
     = Inr ([''*'', ''x''], rng0) \<and>
   ''x'' \<in> set [''*'', ''x''] \<and> count_list [''*'', ''x''] ''*'' = 1 \<and>
   mutations ''*'' jobs_column False rng0 = Inr ([''*''], rng0) \<and>
   count_list [''*''] ''*'' = 1 \<and>
   mutations ''Mechanic'' jobs_column False rng0 = Inr ([''*'', ''Mechanic'', ''Blue''], rng0)"
proof -
  let ?col = "plain_column quasi (Finite 1) [''x'', ''y''] [''x'', ''y'']"
  have m: "mutations ''x'' ?col False rng0 = Inr ([''*'', ''x''], rng0)"
    by (simp add: mutations_plain plain_column_def empty_domain_def)
  have p: "empty_domain (graph ?col)" "\<forall>r\<in>set (ranges ?col). out r \<noteq> ''*''"
    by (simp_all add: plain_column_def empty_domain_def)
  from mutations_coverage[of ?col "''x''" rng0] m p
  have c: "count_list [''*'', ''x''] ''*'' = 1" by simp
  have j: "mutations ''*'' jobs_column False rng0 = Inr ([''*''], rng0)"
    "mutations ''Mechanic'' jobs_column False rng0 = Inr ([''*'', ''Mechanic'', ''Blue''], rng0)"
    by (simp_all add: jobs_column_def plain_column_def mutations_def mutations_list_def
        empty_domain_def find_path_def)
  have q: "\<not> empty_domain (graph jobs_column)" "\<forall>r\<in>set (ranges jobs_column). out r \<noteq> ''*''"
    "''*'' \<notin> set (find_path (graph jobs_column) ''*'')"
    by (simp_all add: jobs_column_def plain_column_def empty_domain_def find_path_def)
  from mutations_coverage[of jobs_column "''*''" rng0] j(1) q
  have "count_list [''*''] ''*'' = 1" by simp
  with m c j show ?thesis by simp
qed

text \<open>
  Claim C6 as stated fails at two cells of that column: the empty cell is not among its
  mutations, and the cell \<open>*\<close> has the symbol \<open>*\<close> twice.
\<close>

theorem mutations_coverage_counterexample:
  "mutations [] (plain_column quasi (Finite 1) [[], ''*''] [[], ''*'']) False rng0 = Inr ([''*''], rng0) \<and>
   [] \<notin> set [''*''] \<and>
   mutations ''*'' (plain_column quasi (Finite 1) [[], ''*''] [[], ''*'']) False rng0
     = Inr ([''*'', ''*''], rng0) \<and>
   count_list [''*'', ''*''] ''*'' = 2"
  by (simp add: mutations_plain plain_column_def empty_domain_def)

lemma replicate_33:
  "replicate 33 x = [x,x,x,x,x,x,x,x,x,x,x,x,x,x,x,x,x,x,x,x,x,x,x,x,x,x,x,x,x,x,x,x,x]"
  by (simp add: numeral_eq_Suc)

text \<open>
  Claim C8 at two tables.  With an ignored column of two names and a quasi column of two
  jobs, every cell having two mutations, \<^verbatim>\<open>get_distinct\<close> answers 16, the product over
  all four cells; the product over the quasi cells is 4.  With 33 rows of an ignored and
  of a quasi column it answers the sentinel, for 66 cells, of which 33 are quasi.
\<close>

theorem get_distinct_counts_all_cells:
  "get_distinct names_jobs = Inr 16 \<and> distinct_states_spec names_jobs = Inr 4 \<and>
   get_distinct wide_table = Inr SIZE_MAX \<and> length (quasi_cells wide_table) = 33"
proof -
  have "get_distinct names_jobs = Inr 16"
    by (simp add: get_distinct_def names_jobs_def plain_column_def mutations_list_def
          empty_domain_def get_column_def)
  moreover have "distinct_states_spec names_jobs = Inr 4"
    by (simp add: distinct_states_spec_def quasi_cells_def names_jobs_def plain_column_def
          mutations_list_def empty_domain_def)
  moreover have "get_distinct wide_table = Inr SIZE_MAX"
    unfolding wide_table_def replicate_33
    by (simp add: get_distinct_def plain_column_def mutations_list_def empty_domain_def get_column_def)
  moreover have "length (quasi_cells wide_table) = 33"
    unfolding wide_table_def replicate_33
    by (simp add: quasi_cells_def plain_column_def)
  ultimately show ?thesis by simp
qed

section \<open>Weights and scores\<close>

lemma get_node_in_set:
  "get_node row mx x n = Inr v \<Longrightarrow> v \<in> set_node n"
proof (induction row mx x n rule: get_node.induct)
  case (1 row mx x k val sts)
  show ?case
  proof (cases "x = (mx + 1) mod 2 ^ 64")
    case True
    from "1.prems"[unfolded get_node_end[OF True]] show ?thesis by simp
  next
    case False
    note P = "1.prems"[unfolded get_node_step[OF False]]
    from P have nb: "\<not> length row \<le> x" by (auto split: if_splits)
    from P nb obtain i where fs: "find_state (row ! x) sts = Some i"
      and g: "get_node row mx (x + 1) (sts ! i) = Inr v"
      by (auto split: option.splits)
    from find_state_Some[OF fs] have il: "i < length sts" by simp
    from "1.IH"[OF False nb fs g] have "v \<in> set_node (sts ! i)" .
    with il show ?thesis by (auto intro!: bexI[of _ "sts ! i"])
  qed
qed

lemma add_node_set:
  "add_node d row v mx x n = Inr n' \<Longrightarrow> set_node n' \<subseteq> insert v (insert d (set_node n))"
proof (induction d row v mx x n arbitrary: n' rule: add_node.induct)
  case (1 d row v mx x k val sts)
  show ?case
  proof (cases "x = (mx + 1) mod 2 ^ 64")
    case True
    from "1.prems"[unfolded add_node_end[OF True]] show ?thesis
      by (auto split: if_splits)
  next
    case False
    note P = "1.prems"[unfolded add_node_step[OF False]]
    from P have nb: "\<not> length row \<le> x" by (auto split: if_splits)
    show ?thesis
    proof (cases "find_state (row ! x) sts")
      case None
      with P nb obtain m where a: "add_node d row v mx (x + 1) (Node (row ! x) d []) = Inr m"
        and n': "n' = Node k val (sts @ [m])"
        by (auto split: sum.splits)
      from "1.IH"(1)[OF False nb None a] have "set_node m \<subseteq> insert v (insert d {})" by simp
      then show ?thesis unfolding n' by auto
    next
      case (Some i)
      with P nb obtain m where a: "add_node d row v mx (x + 1) (sts ! i) = Inr m"
        and n': "n' = Node k val (sts[i := m])"
        by (auto split: sum.splits)
      from find_state_Some[OF Some] have il: "i < length sts" by simp
      from "1.IH"(2)[OF False nb Some a] have s: "set_node m \<subseteq> insert v (insert d (set_node (sts ! i)))" .
      have "set (sts[i := m]) \<subseteq> insert m (set sts)" by (rule set_update_subset_insert)
      moreover have "set_node (sts ! i) \<subseteq> (\<Union>c\<in>set sts. set_node c)"
        using nth_mem[OF il] by blast
      ultimately show ?thesis unfolding n' using s by auto
    qed
  qed
qed

lemma fadd_nonneg: "nonneg a \<Longrightarrow> nonneg b \<Longrightarrow> nonneg (fadd a b)"
proof (cases a; cases b)
  fix x y assume "nonneg a" "nonneg b" "a = Finite x" "b = Finite y"
  then show "nonneg (fadd a b)" using rnd_nonneg[of "x + y"] by (simp add: fadd_def nonneg_iff)
qed (simp_all add: fadd_def nonneg_iff)

lemma fadd_notneg:
  "nonneg a \<or> a = NaN \<Longrightarrow> nonneg b \<or> b = NaN \<Longrightarrow> nonneg (fadd a b) \<or> fadd a b = NaN"
proof (cases a; cases b)
  fix x y assume "nonneg a \<or> a = NaN" "nonneg b \<or> b = NaN" "a = Finite x" "b = Finite y"
  then show "nonneg (fadd a b) \<or> fadd a b = NaN"
    using rnd_nonneg[of "x + y"] by (simp add: fadd_def nonneg_iff)
qed (simp_all add: fadd_def nonneg_iff)

lemma fmul_notneg:
  "nonneg a \<or> a = NaN \<Longrightarrow> nonneg b \<or> b = NaN \<Longrightarrow> nonneg (fmul a b) \<or> fmul a b = NaN"
proof (cases a; cases b)
  fix x y assume "nonneg a \<or> a = NaN" "nonneg b \<or> b = NaN" "a = Finite x" "b = Finite y"
  then show "nonneg (fmul a b) \<or> fmul a b = NaN"
    using rnd_nonneg[of "x * y"] by (simp add: fmul_def nonneg_iff)
qed (auto simp: fmul_def nonneg_iff positive_def)

lemma fdiv_notneg:
  "nonneg a \<Longrightarrow> nonneg b \<Longrightarrow> nonneg (fdiv a b) \<or> fdiv a b = NaN"
proof (cases a; cases b)
  fix x y assume "nonneg a" "nonneg b" "a = Finite x" "b = Finite y"
  then show "nonneg (fdiv a b) \<or> fdiv a b = NaN"
    using rnd_nonneg[of "x / y"] by (auto simp: fdiv_def nonneg_iff)
qed (auto simp: fdiv_def nonneg_iff)

lemma of_size_nonneg: "nonneg (of_size n)"
  unfolding of_size_def by (rule rnd_nonneg) simp

lemma cs_cell_notneg: "cs_cell w col modif = Inr v \<Longrightarrow> nonneg v \<or> v = NaN"
  using fdiv_notneg[OF of_size_nonneg of_size_nonneg]
  by (auto simp: cs_cell_def nonneg_iff split: if_splits sum.splits)

lemma whole_iff: "whole M a \<longleftrightarrow> (\<exists>n::int. a = Finite (of_int n) \<and> \<bar>n\<bar> \<le> int M)"
proof
  assume "whole M a"
  then obtain x where a: "a = Finite x" and x: "x = of_int \<lfloor>x\<rfloor>" and b: "\<bar>x\<bar> \<le> real M"
    by (auto simp: whole_def split: float.splits)
  from x b have "\<bar>of_int \<lfloor>x\<rfloor> :: real\<bar> \<le> real M" by simp
  then have "\<bar>\<lfloor>x\<rfloor>\<bar> \<le> int M" by linarith
  with a x show "\<exists>n::int. a = Finite (of_int n) \<and> \<bar>n\<bar> \<le> int M" by metis
next
  assume "\<exists>n::int. a = Finite (of_int n) \<and> \<bar>n\<bar> \<le> int M"
  then obtain n :: int where "a = Finite (of_int n)" "\<bar>n\<bar> \<le> int M" by blast
  then show "whole M a" by (simp add: whole_def)
qed

lemma fadd_whole:
  "\<bar>a\<bar> + \<bar>b\<bar> \<le> 2 ^ 24 \<Longrightarrow> fadd (Finite (of_int a)) (Finite (of_int b)) = Finite (of_int (a + b))"
  using rnd_of_int[of "a + b"] by (simp add: fadd_def)

lemma fmul_whole:
  "\<bar>a * b\<bar> \<le> 2 ^ 24 \<Longrightarrow> fmul (Finite (of_int a)) (Finite (of_int b)) = Finite (of_int (a * b))"
  using rnd_of_int[of "a * b"] by (simp add: fmul_def)

lemma get_column_weight:
  "list_all (\<lambda>(name, cl). P (weight cl)) (data_tbl tb) \<Longrightarrow> get_column tb x = Inr cl \<Longrightarrow> P (weight cl)"
proof -
  assume n: "list_all (\<lambda>(name, cl). P (weight cl)) (data_tbl tb)" and g: "get_column tb x = Inr cl"
  from g have "map_of (data_tbl tb) (header tb ! x) = Some cl"
    by (auto simp: get_column_def split: if_splits option.splits)
  then have "(header tb ! x, cl) \<in> set (data_tbl tb)" by (rule map_of_SomeD)
  with n show ?thesis by (auto simp: list_all_iff)
qed

lemma md_row_nonneg:
  "nonneg_weights w \<Longrightarrow> nonneg acc \<Longrightarrow> md_row w orig r row cols acc = Inr s \<Longrightarrow> nonneg s"
proof (induction cols arbitrary: acc)
  case Nil
  then show ?case by simp
next
  case (Cons col cols)
  from Cons.prems(3) obtain original where "index orig r col = Inr original"
    and nb: "\<not> length row \<le> col"
    and rest: "(if original \<noteq> row ! col
                then (case get_column w col of Inl e \<Rightarrow> Inl e
                      | Inr cl \<Rightarrow> md_row w orig r row cols (fadd acc (weight cl)))
                else md_row w orig r row cols acc) = Inr s"
    by (auto split: sum.splits if_splits)
  show ?case
  proof (cases "original \<noteq> row ! col")
    case True
    with rest obtain cl where gc: "get_column w col = Inr cl"
      and m: "md_row w orig r row cols (fadd acc (weight cl)) = Inr s"
      by (auto split: sum.splits)
    from get_column_weight[OF Cons.prems(1)[unfolded nonneg_weights_def] gc] Cons.prems(2)
    have "nonneg (fadd acc (weight cl))" by (simp add: fadd_nonneg)
    from Cons.IH[OF Cons.prems(1) this m] show ?thesis .
  next
    case False
    with rest have "md_row w orig r row cols acc = Inr s" by simp
    from Cons.IH[OF Cons.prems(1,2) this] show ?thesis .
  qed
qed

lemma cs_row_notneg:
  "nonneg_weights orig \<Longrightarrow> nonneg acc \<or> acc = NaN \<Longrightarrow> cs_row w orig r row cols acc = Inr s \<Longrightarrow>
   nonneg s \<or> s = NaN"
proof (induction cols arbitrary: acc)
  case Nil
  then show ?case by simp
next
  case (Cons col cols)
  from Cons.prems(3) obtain original where "index orig r col = Inr original"
    and nb: "\<not> length row \<le> col"
    and rest: "(if original = row ! col then cs_row w orig r row cols acc
                else (case cs_cell w col (row ! col) of Inl e \<Rightarrow> Inl e
                      | Inr col_score \<Rightarrow>
                          (case get_column orig col of Inl e \<Rightarrow> Inl e
                           | Inr ocl \<Rightarrow>
                               cs_row w orig r row cols (fadd acc (fmul col_score (weight ocl)))))) = Inr s"
    by (auto split: sum.splits if_splits)
  show ?case
  proof (cases "original = row ! col")
    case True
    with rest have "cs_row w orig r row cols acc = Inr s" by simp
    from Cons.IH[OF Cons.prems(1,2) this] show ?thesis .
  next
    case False
    with rest obtain col_score ocl where cc: "cs_cell w col (row ! col) = Inr col_score"
      and gc: "get_column orig col = Inr ocl"
      and m: "cs_row w orig r row cols (fadd acc (fmul col_score (weight ocl))) = Inr s"
      by (auto split: sum.splits)
    from get_column_weight[OF Cons.prems(1)[unfolded nonneg_weights_def] gc]
    have "nonneg (weight ocl) \<or> weight ocl = NaN" by simp
    from fmul_notneg[OF cs_cell_notneg[OF cc] this]
    have "nonneg (fmul col_score (weight ocl)) \<or> fmul col_score (weight ocl) = NaN" .
    from fadd_notneg[OF Cons.prems(2) this]
    have "nonneg (fadd acc (fmul col_score (weight ocl))) \<or> fadd acc (fmul col_score (weight ocl)) = NaN" .
    from Cons.IH[OF Cons.prems(1) this m] show ?thesis .
  qed
qed

lemma score_cached_scores:
  "score_cached g row = Inr (hit, g1) \<Longrightarrow>
   set_node (root (score_cache g1)) = set_node (root (score_cache g))"
  by (auto simp: score_cached_def tree_in_def split: if_splits sum.splits)

lemma score_get_scores:
  "tree_get (score_cache g) row mx = Inr v \<Longrightarrow> v \<in> set_node (root (score_cache g))"
  using get_node_in_set by (fastforce simp: tree_get_def)

lemma score_store_scores:
  assumes "score_store g row v = Inr g2"
  shows "set_node (root (score_cache g2)) \<subseteq> insert v (insert (Finite 0) (set_node (root (score_cache g))))"
proof (cases "cache g")
  case False
  with assms show ?thesis by (auto simp: score_store_def)
next
  case True
  with assms obtain n where
    a: "add_node (Finite 0) row v (upper_bound row SIZE_MAX) 0 (root (score_cache g)) = Inr n"
    and g2: "g2 = g\<lparr>score_cache := (score_cache g)\<lparr>root := n\<rparr>\<rparr>"
    by (auto simp: score_store_def tree_add_def split: sum.splits)
  from add_node_set[OF a] show ?thesis unfolding g2 by simp
qed

lemma nonneg_0: "nonneg (Finite 0)"
  by (simp add: nonneg_iff)

lemma md_rows_nonneg:
  "nonneg_weights w \<Longrightarrow> nonneg_scores g \<Longrightarrow> nonneg score \<Longrightarrow>
   md_rows w orig rs score g = Inr (s, g') \<Longrightarrow> nonneg s \<and> nonneg_scores g'"
proof (induction rs arbitrary: score g)
  case Nil
  then show ?case by simp
next
  case (Cons r rs)
  from Cons.prems(4) obtain row hit g1 where cv: "construct_view w r = Inr row"
    and sc: "score_cached g row = Inr (hit, g1)"
    and rest: "(if hit then
                 (case tree_get (score_cache g1) row SIZE_MAX of
                    Inl e \<Rightarrow> Inl e
                  | Inr v \<Rightarrow> md_rows w orig rs (fadd score v) g1)
               else
                 (case md_row w orig r row [0..<columns w] (Finite 0) of
                    Inl e \<Rightarrow> Inl e
                  | Inr row_score \<Rightarrow>
                      (case score_store g1 row row_score of
                         Inl e \<Rightarrow> Inl e
                       | Inr g2 \<Rightarrow> md_rows w orig rs (fadd score row_score) g2))) = Inr (s, g')"
    by (auto split: sum.splits prod.splits)
  from score_cached_scores[OF sc] Cons.prems(2) have n1: "nonneg_scores g1"
    by (simp add: nonneg_scores_def)
  show ?case
  proof (cases hit)
    case True
    with rest obtain v where gv: "tree_get (score_cache g1) row SIZE_MAX = Inr v"
      and m: "md_rows w orig rs (fadd score v) g1 = Inr (s, g')"
      by (auto split: sum.splits)
    from score_get_scores[OF gv] n1 have "nonneg v" by (simp add: nonneg_scores_def)
    with Cons.prems(3) have "nonneg (fadd score v)" by (simp add: fadd_nonneg)
    from Cons.IH[OF Cons.prems(1) n1 this m] show ?thesis .
  next
    case False
    with rest obtain row_score g2 where rs: "md_row w orig r row [0..<columns w] (Finite 0) = Inr row_score"
      and st: "score_store g1 row row_score = Inr g2"
      and m: "md_rows w orig rs (fadd score row_score) g2 = Inr (s, g')"
      by (auto split: sum.splits)
    from md_row_nonneg[OF Cons.prems(1) nonneg_0 rs] have r0: "nonneg row_score" .
    from score_store_scores[OF st] n1 r0 have n2: "nonneg_scores g2"
      by (auto simp: nonneg_scores_def nonneg_0)
    from r0 Cons.prems(3) have "nonneg (fadd score row_score)" by (simp add: fadd_nonneg)
    from Cons.IH[OF Cons.prems(1) n2 this m] show ?thesis .
  qed
qed

lemma cs_rows_notneg:
  "nonneg_weights orig \<Longrightarrow> \<forall>v\<in>set_node (root (score_cache g)). nonneg v \<or> v = NaN \<Longrightarrow>
   nonneg score \<or> score = NaN \<Longrightarrow>
   cs_rows w orig rs score g = Inr (s, g') \<Longrightarrow> nonneg s \<or> s = NaN"
proof (induction rs arbitrary: score g)
  case Nil
  then show ?case by simp
next
  case (Cons r rs)
  from Cons.prems(4) obtain row hit g1 where cv: "construct_view w r = Inr row"
    and sc: "score_cached g row = Inr (hit, g1)"
    and rest: "(if hit then
                 (case tree_get (score_cache g1) row SIZE_MAX of
                    Inl e \<Rightarrow> Inl e
                  | Inr v \<Rightarrow> cs_rows w orig rs (fadd score v) g1)
               else
                 (case cs_row w orig r row [0..<columns w] (Finite 0) of
                    Inl e \<Rightarrow> Inl e
                  | Inr row_score \<Rightarrow>
                      (case score_store g1 row row_score of
                         Inl e \<Rightarrow> Inl e
                       | Inr g2 \<Rightarrow> cs_rows w orig rs (fadd score row_score) g2))) = Inr (s, g')"
    by (auto split: sum.splits prod.splits)
  from score_cached_scores[OF sc] Cons.prems(2)
  have n1: "\<forall>v\<in>set_node (root (score_cache g1)). nonneg v \<or> v = NaN" by simp
  show ?case
  proof (cases hit)
    case True
    with rest obtain v where gv: "tree_get (score_cache g1) row SIZE_MAX = Inr v"
      and m: "cs_rows w orig rs (fadd score v) g1 = Inr (s, g')"
      by (auto split: sum.splits)
    from score_get_scores[OF gv] n1 have "nonneg v \<or> v = NaN" by blast
    from fadd_notneg[OF Cons.prems(3) this] have "nonneg (fadd score v) \<or> fadd score v = NaN" .
    from Cons.IH[OF Cons.prems(1) n1 this m] show ?thesis .
  next
    case False
    with rest obtain row_score g2 where rs: "cs_row w orig r row [0..<columns w] (Finite 0) = Inr row_score"
      and st: "score_store g1 row row_score = Inr g2"
      and m: "cs_rows w orig rs (fadd score row_score) g2 = Inr (s, g')"
      by (auto split: sum.splits)
    from cs_row_notneg[OF Cons.prems(1) _ rs] nonneg_0
    have r0: "nonneg row_score \<or> row_score = NaN" by blast
    from score_store_scores[OF st] n1 r0
    have n2: "\<forall>v\<in>set_node (root (score_cache g2)). nonneg v \<or> v = NaN"
      using nonneg_0 by blast
    from fadd_notneg[OF Cons.prems(3) r0]
    have "nonneg (fadd score row_score) \<or> fadd score row_score = NaN" .
    from Cons.IH[OF Cons.prems(1) n2 this m] show ?thesis .
  qed
qed

lemma get_column_scale:
  "get_column (scale_weights l tb) x = map_sum id (scale_column l) (get_column tb x)"
  by (auto simp: get_column_def scale_weights_def map_of_map split: option.splits)

lemma index_scale: "index (scale_weights l tb) r x = index tb r x"
  by (auto simp: index_def get_column_scale scale_column_def split: sum.splits)

lemma construct_view_scale: "construct_view (scale_weights l tb) r = construct_view tb r"
  by (simp add: construct_view_def index_scale) (simp add: scale_weights_def)

lemma columns_scale: "columns (scale_weights l tb) = columns tb"
  by (simp add: columns_def scale_weights_def)

lemma rows_scale: "rows (scale_weights l tb) = rows tb"
  by (simp add: scale_weights_def)

lemma cs_cell_scale: "cs_cell (scale_weights l w) col modif = cs_cell w col modif"
  by (auto simp: cs_cell_def get_column_scale scale_column_def split: sum.splits)

lemma scaled_run_weaken: "scaled_run l K X Y \<Longrightarrow> K \<le> K' \<Longrightarrow> scaled_run l K' X Y"
  by (auto simp: scaled_run_def split: sum.splits)

lemma whole_bounds:
  fixes l a n :: int and L B M :: nat
  assumes "\<bar>l\<bar> \<le> int L" "1 \<le> L" "int L * (int B + int M + K) \<le> 2 ^ 24" "0 \<le> K"
    "\<bar>a\<bar> \<le> int B" "\<bar>n\<bar> \<le> int M"
  shows "\<bar>a\<bar> + \<bar>n\<bar> \<le> 2 ^ 24" "\<bar>l * n\<bar> \<le> 2 ^ 24" "\<bar>l * a\<bar> + \<bar>l * n\<bar> \<le> 2 ^ 24"
proof -
  have s: "\<bar>a\<bar> + \<bar>n\<bar> \<le> int B + int M + K" using assms(4,5,6) by linarith
  have "\<bar>l\<bar> * (\<bar>a\<bar> + \<bar>n\<bar>) \<le> int L * (int B + int M + K)"
    using assms(1) s by (intro mult_mono) simp_all
  then have t: "\<bar>l\<bar> * (\<bar>a\<bar> + \<bar>n\<bar>) \<le> 2 ^ 24" using assms(3) by (rule order_trans)
  have "1 * (\<bar>a\<bar> + \<bar>n\<bar>) \<le> int L * (int B + int M + K)"
    using assms(2) s by (intro mult_mono) simp_all
  then have "\<bar>a\<bar> + \<bar>n\<bar> \<le> int L * (int B + int M + K)" by simp
  then show "\<bar>a\<bar> + \<bar>n\<bar> \<le> 2 ^ 24" using assms(3) by (rule order_trans)
  from t show "\<bar>l * a\<bar> + \<bar>l * n\<bar> \<le> 2 ^ 24" by (simp add: abs_mult distrib_left)
  have "\<bar>l\<bar> * \<bar>n\<bar> \<le> \<bar>l\<bar> * (\<bar>a\<bar> + \<bar>n\<bar>)" by (intro mult_left_mono) simp_all
  then have "\<bar>l\<bar> * \<bar>n\<bar> \<le> 2 ^ 24" using t by (rule order_trans)
  then show "\<bar>l * n\<bar> \<le> 2 ^ 24" by (simp add: abs_mult)
qed

lemma md_row_whole:
  fixes l :: int and L M :: nat
  assumes ww: "whole_weights M w" and L: "\<bar>l\<bar> \<le> int L" "1 \<le> L"
  shows "int L * (int B + int M * int (length cols)) \<le> 2 ^ 24 \<Longrightarrow> \<bar>a\<bar> \<le> int B \<Longrightarrow>
     scaled_run l (int B + int M * int (length cols))
       (md_row w orig r row cols (Finite (of_int a)))
       (md_row (scale_weights (Finite (of_int l)) w) (scale_weights (Finite (of_int l)) orig)
          r row cols (Finite (of_int (l * a))))"
proof (induction cols arbitrary: a B)
  case Nil
  then show ?case by (simp add: scaled_run_def)
next
  case (Cons col cols)
  let ?sw = "scale_weights (Finite (of_int l)) w" and ?so = "scale_weights (Finite (of_int l)) orig"
  let ?K = "int B + int M * int (length (col # cols))"
  have bd: "int L * (int B + int M + int M * int (length cols)) \<le> 2 ^ 24"
    using Cons.prems(1) by (simp add: algebra_simps)
  show ?case
  proof (cases "index orig r col")
    case (Inl e)
    then show ?thesis by (simp add: scaled_run_def index_scale)
  next
    case (Inr original)
    show ?thesis
    proof (cases "length row \<le> col")
      case True
      with Inr show ?thesis by (simp add: scaled_run_def index_scale)
    next
      case nb: False
      show ?thesis
      proof (cases "original \<noteq> row ! col")
        case False
        have "int L * (int B + int M * int (length cols)) \<le> int L * (int B + int M + int M * int (length cols))"
          by (intro mult_left_mono) simp_all
        with bd have "int L * (int B + int M * int (length cols)) \<le> 2 ^ 24" by linarith
        from Cons.IH[OF this Cons.prems(2)]
        have "scaled_run l (int B + int M * int (length cols))
               (md_row w orig r row cols (Finite (of_int a)))
               (md_row ?sw ?so r row cols (Finite (of_int (l * a))))" .
        then have "scaled_run l ?K
               (md_row w orig r row cols (Finite (of_int a)))
               (md_row ?sw ?so r row cols (Finite (of_int (l * a))))"
          by (rule scaled_run_weaken) (simp add: algebra_simps)
        with False Inr nb show ?thesis by (simp add: index_scale)
      next
        case True
        show ?thesis
        proof (cases "get_column w col")
          case (Inl e)
          with True Inr nb show ?thesis by (simp add: scaled_run_def index_scale get_column_scale)
        next
          case gc: (Inr cl)
          from get_column_weight[OF ww[unfolded whole_weights_def] gc]
          obtain n :: int where n: "weight cl = Finite (of_int n)" "\<bar>n\<bar> \<le> int M"
            unfolding whole_iff by blast
          note wb = whole_bounds[OF L bd _ Cons.prems(2) n(2)]
          have f1: "fadd (Finite (of_int a)) (weight cl) = Finite (of_int (a + n))"
            unfolding n(1) by (rule fadd_whole) (rule wb, simp)
          have f2: "weight (scale_column (Finite (of_int l)) cl) = Finite (of_int (l * n))"
            unfolding scale_column_def n(1) using fmul_whole[of l n] wb(2) by simp
          have f3: "fadd (Finite (of_int (l * a))) (Finite (of_int (l * n))) = Finite (of_int (l * (a + n)))"
            using fadd_whole[of "l * a" "l * n"] wb(3) by (simp add: distrib_left)
          have "int L * (int (B + M) + int M * int (length cols)) \<le> 2 ^ 24" using bd by simp
          moreover have "\<bar>a + n\<bar> \<le> int (B + M)" using Cons.prems(2) n(2) by simp
          ultimately have "scaled_run l (int (B + M) + int M * int (length cols))
               (md_row w orig r row cols (Finite (of_int (a + n))))
               (md_row ?sw ?so r row cols (Finite (of_int (l * (a + n)))))"
            by (rule Cons.IH)
          then have "scaled_run l ?K
               (md_row w orig r row cols (Finite (of_int (a + n))))
               (md_row ?sw ?so r row cols (Finite (of_int (l * (a + n)))))"
            by (rule scaled_run_weaken) (simp add: algebra_simps)
          with True Inr nb gc f1 f2 f3 show ?thesis
            by (simp add: index_scale get_column_scale)
        qed
      qed
    qed
  qed
qed

lemma sequence_nth:
  "sequence xs = Inr vs \<Longrightarrow> length vs = length xs \<and> (\<forall>i<length xs. xs ! i = Inr (vs ! i))"
proof (induction xs arbitrary: vs)
  case Nil
  then show ?case by simp
next
  case (Cons x xs)
  from Cons.prems obtain v vs' where x: "x = Inr v" and s: "sequence xs = Inr vs'" and vs: "vs = v # vs'"
    by (auto split: sum.splits)
  from Cons.IH[OF s] x vs show ?case by (auto simp: nth_Cons')
qed

lemma construct_view_nth:
  "construct_view tb r = Inr row \<Longrightarrow> c < columns tb \<Longrightarrow> index tb r c = Inr (row ! c)"
  using sequence_nth[of "map (\<lambda>x. index tb r x) [0..<length (header tb)]" row]
  by (auto simp: construct_view_def columns_def)

lemma cs_row_whole:
  fixes l :: int and L M :: nat
  assumes ww: "whole_weights M orig" and L: "\<bar>l\<bar> \<le> int L" "1 \<le> L"
    and sup: "\<forall>c\<in>set cols0. index orig r c = Inr (row ! c) \<or> row ! c = ''*''"
  shows "set cols \<subseteq> set cols0 \<Longrightarrow> int L * (int B + int M * int (length cols)) \<le> 2 ^ 24 \<Longrightarrow>
     \<bar>a\<bar> \<le> int B \<Longrightarrow>
     scaled_run l (int B + int M * int (length cols))
       (cs_row w orig r row cols (Finite (of_int a)))
       (cs_row (scale_weights (Finite (of_int l)) w) (scale_weights (Finite (of_int l)) orig)
          r row cols (Finite (of_int (l * a))))"
proof (induction cols arbitrary: a B)
  case Nil
  then show ?case by (simp add: scaled_run_def)
next
  case (Cons col cols)
  let ?sw = "scale_weights (Finite (of_int l)) w" and ?so = "scale_weights (Finite (of_int l)) orig"
  let ?K = "int B + int M * int (length (col # cols))"
  from Cons.prems(1) have sub: "set cols \<subseteq> set cols0" and cin: "col \<in> set cols0" by simp_all
  have bd: "int L * (int B + int M + int M * int (length cols)) \<le> 2 ^ 24"
    using Cons.prems(2) by (simp add: algebra_simps)
  show ?case
  proof (cases "index orig r col")
    case (Inl e)
    then show ?thesis by (simp add: scaled_run_def index_scale)
  next
    case (Inr original)
    show ?thesis
    proof (cases "length row \<le> col")
      case True
      with Inr show ?thesis by (simp add: scaled_run_def index_scale)
    next
      case nb: False
      show ?thesis
      proof (cases "original = row ! col")
        case True
        have "int L * (int B + int M * int (length cols)) \<le> int L * (int B + int M + int M * int (length cols))"
          by (intro mult_left_mono) simp_all
        with bd have "int L * (int B + int M * int (length cols)) \<le> 2 ^ 24" by linarith
        from Cons.IH[OF sub this Cons.prems(3)]
        have "scaled_run l (int B + int M * int (length cols))
               (cs_row w orig r row cols (Finite (of_int a)))
               (cs_row ?sw ?so r row cols (Finite (of_int (l * a))))" .
        then have "scaled_run l ?K
               (cs_row w orig r row cols (Finite (of_int a)))
               (cs_row ?sw ?so r row cols (Finite (of_int (l * a))))"
          by (rule scaled_run_weaken) (simp add: algebra_simps)
        with True Inr nb show ?thesis by (simp add: index_scale)
      next
        case False
        with sup cin Inr have star: "row ! col = ''*''" by auto
        have cc: "cs_cell w col (row ! col) = Inr (Finite 1)" "cs_cell ?sw col (row ! col) = Inr (Finite 1)"
          unfolding star by (simp_all add: cs_cell_def)
        show ?thesis
        proof (cases "get_column orig col")
          case (Inl e)
          with False Inr nb cc show ?thesis
            by (simp add: scaled_run_def index_scale get_column_scale)
        next
          case gc: (Inr ocl)
          from get_column_weight[OF ww[unfolded whole_weights_def] gc]
          obtain n :: int where n: "weight ocl = Finite (of_int n)" "\<bar>n\<bar> \<le> int M"
            unfolding whole_iff by blast
          have kz: "0 \<le> int M * int (length cols)" by simp
          note wb = whole_bounds[OF L bd kz Cons.prems(3) n(2)]
          have n24: "\<bar>1 * n\<bar> \<le> 2 ^ 24" using wb(1) by simp
          have ln24: "\<bar>1 * (l * n)\<bar> \<le> 2 ^ 24" using wb(2) by simp
          have p1: "fmul (Finite 1) (weight ocl) = Finite (of_int n)"
            unfolding n(1) using fmul_whole[OF n24] by simp
          have f1: "fadd (Finite (of_int a)) (Finite (of_int n)) = Finite (of_int (a + n))"
            by (rule fadd_whole) (rule wb)
          have f2: "weight (scale_column (Finite (of_int l)) ocl) = Finite (of_int (l * n))"
            unfolding scale_column_def n(1) using fmul_whole[of l n] wb(2) by simp
          have p2: "fmul (Finite 1) (Finite (of_int (l * n))) = Finite (of_int (l * n))"
            using fmul_whole[OF ln24] by simp
          have f3: "fadd (Finite (of_int (l * a))) (Finite (of_int (l * n))) = Finite (of_int (l * (a + n)))"
            using fadd_whole[of "l * a" "l * n"] wb(3) by (simp add: distrib_left)
          have "int L * (int (B + M) + int M * int (length cols)) \<le> 2 ^ 24" using bd by simp
          moreover have "\<bar>a + n\<bar> \<le> int (B + M)" using Cons.prems(3) n(2) by simp
          ultimately have "scaled_run l (int (B + M) + int M * int (length cols))
               (cs_row w orig r row cols (Finite (of_int (a + n))))
               (cs_row ?sw ?so r row cols (Finite (of_int (l * (a + n)))))"
            by (rule Cons.IH[OF sub])
          then have "scaled_run l ?K
               (cs_row w orig r row cols (Finite (of_int (a + n))))
               (cs_row ?sw ?so r row cols (Finite (of_int (l * (a + n)))))"
            by (rule scaled_run_weaken) (simp add: algebra_simps)
          with False Inr nb gc cc p1 p2 f1 f2 f3 show ?thesis
            by (simp add: index_scale get_column_scale)
        qed
      qed
    qed
  qed
qed

lemma key_map_node: "key (map_node f n) = key n"
  by (cases n) simp

lemma find_state_map: "find_state val (map (map_node f) ns) = find_state val ns"
  by (induction ns) (auto simp: key_map_node)

lemma set_node_child: "i < length sts \<Longrightarrow> set_node (sts ! i) \<subseteq> set_node (Node k val sts)"
  using nth_mem by fastforce

lemma in_node_map:
  "f d = d \<Longrightarrow> \<forall>v\<in>set_node n. (f v = d) = (v = d) \<Longrightarrow>
   in_node d row mx x (map_node f n) = in_node d row mx x n"
proof (induction d row mx x n rule: in_node.induct)
  case (1 d row mx x k val sts)
  show ?case
  proof (cases "x = (mx + 1) mod 2 ^ 64")
    case True
    show ?thesis unfolding node.map in_node_end[OF True] using "1.prems" by simp
  next
    case False
    show ?thesis
    proof (cases "length row \<le> x \<or> sts = []")
      case True
      then show ?thesis unfolding node.map in_node_step[OF False] by auto
    next
      case nb: False
      show ?thesis
      proof (cases "find_state (row ! x) sts")
        case None
        then show ?thesis unfolding node.map in_node_step[OF False] by (simp add: find_state_map)
      next
        case (Some i)
        from find_state_Some[OF Some] have il: "i < length sts" by simp
        from set_node_child[OF il, of k val] "1.prems"(2)
        have sub: "\<forall>v\<in>set_node (sts ! i). (f v = d) = (v = d)" by blast
        from "1.IH"[OF False _ _ Some "1.prems"(1) sub] nb
        have "in_node d row mx (x + 1) (map_node f (sts ! i)) = in_node d row mx (x + 1) (sts ! i)"
          by simp
        then show ?thesis unfolding node.map in_node_step[OF False] using Some il nb
          by (simp add: find_state_map)
      qed
    qed
  qed
qed

lemma get_node_map:
  "get_node row mx x (map_node f n) = map_sum id f (get_node row mx x n)"
proof (induction row mx x n rule: get_node.induct)
  case (1 row mx x k val sts)
  show ?case
  proof (cases "x = (mx + 1) mod 2 ^ 64")
    case True
    show ?thesis unfolding node.map get_node_end[OF True] by simp
  next
    case False
    show ?thesis
    proof (cases "length row \<le> x")
      case True
      then show ?thesis unfolding node.map get_node_step[OF False] by simp
    next
      case nb: False
      show ?thesis
      proof (cases "find_state (row ! x) sts")
        case None
        then show ?thesis unfolding node.map get_node_step[OF False] using nb
          by (simp add: find_state_map)
      next
        case (Some i)
        from find_state_Some[OF Some] have il: "i < length sts" by simp
        from "1.IH"[OF False nb Some]
        have "get_node row mx (x + 1) (map_node f (sts ! i)) = map_sum id f (get_node row mx (x + 1) (sts ! i))" .
        then show ?thesis unfolding node.map get_node_step[OF False] using Some il nb
          by (simp add: id_def find_state_map)
      qed
    qed
  qed
qed

lemma add_node_map:
  "f d = d \<Longrightarrow> \<forall>u\<in>set_node n. (f u = d) = (u = d) \<Longrightarrow>
   add_node d row (f v) mx x (map_node f n) = map_sum id (map_node f) (add_node d row v mx x n)"
proof (induction d row v mx x n rule: add_node.induct)
  case (1 d row v mx x k val sts)
  note fd = "1.prems"(1)
  show ?case
  proof (cases "x = (mx + 1) mod 2 ^ 64")
    case True
    show ?thesis unfolding node.map add_node_end[OF True] using "1.prems" by simp
  next
    case False
    show ?thesis
    proof (cases "length row \<le> x")
      case True
      then show ?thesis unfolding node.map add_node_step[OF False] by simp
    next
      case nb: False
      show ?thesis
      proof (cases "find_state (row ! x) sts")
        case None
        have sub: "\<forall>u\<in>set_node (Node (row ! x) d []). (f u = d) = (u = d)" using fd by simp
        from "1.IH"(1)[OF False nb None fd sub]
        have "add_node d row (f v) mx (x + 1) (map_node f (Node (row ! x) d []))
              = map_sum id (map_node f) (add_node d row v mx (x + 1) (Node (row ! x) d []))" .
        then have "add_node d row (f v) mx (x + 1) (Node (row ! x) d [])
              = map_sum id (map_node f) (add_node d row v mx (x + 1) (Node (row ! x) d []))"
          using fd by simp
        then show ?thesis unfolding node.map add_node_step[OF False] using None nb
          by (auto split: sum.splits simp: find_state_map)
      next
        case (Some i)
        from find_state_Some[OF Some] have il: "i < length sts" by simp
        from set_node_child[OF il, of k val] "1.prems"(2)
        have sub: "\<forall>u\<in>set_node (sts ! i). (f u = d) = (u = d)" by blast
        from "1.IH"(2)[OF False nb Some fd sub]
        have "add_node d row (f v) mx (x + 1) (map_node f (sts ! i))
              = map_sum id (map_node f) (add_node d row v mx (x + 1) (sts ! i))" .
        then show ?thesis unfolding node.map add_node_step[OF False] using Some il nb
          by (auto split: sum.splits simp: map_update find_state_map)
      qed
    qed
  qed
qed

lemma fmul_whole_zero:
  fixes l :: int
  assumes "l \<noteq> 0" "whole P v" "\<bar>l\<bar> * int P \<le> 2 ^ 24"
  shows "(fmul (Finite (of_int l)) v = Finite 0) = (v = Finite 0)"
proof -
  from assms(2) obtain b :: int where b: "v = Finite (of_int b)" "\<bar>b\<bar> \<le> int P"
    unfolding whole_iff by blast
  have "\<bar>l\<bar> * \<bar>b\<bar> \<le> \<bar>l\<bar> * int P" using b(2) by (intro mult_left_mono) simp_all
  then have "\<bar>l\<bar> * \<bar>b\<bar> \<le> 2 ^ 24" using assms(3) by (rule order_trans)
  then have "\<bar>l * b\<bar> \<le> 2 ^ 24" by (simp add: abs_mult)
  from fmul_whole[OF this] have "fmul (Finite (of_int l)) v = Finite (of_int (l * b))"
    unfolding b(1) .
  moreover have "(of_int (l * b) = (0::real)) = (b = 0)" using assms(1) by simp
  ultimately show ?thesis unfolding b(1) by simp
qed

lemma fmul_zero: "fmul (Finite (of_int l)) (Finite 0) = Finite 0"
  by (simp add: fmul_def rnd_0)

lemma score_cached_scale:
  fixes l :: int
  assumes "cache g \<longrightarrow> l \<noteq> 0 \<and> whole_scores P g" "\<bar>l\<bar> * int P \<le> 2 ^ 24"
  shows "score_cached (scale_scores (Finite (of_int l)) g) row =
         (case score_cached g row of Inl e \<Rightarrow> Inl e
          | Inr (hit, g1) \<Rightarrow> Inr (hit, scale_scores (Finite (of_int l)) g1))"
proof (cases "cache g")
  case False
  then show ?thesis by (simp add: score_cached_def scale_scores_def)
next
  case True
  with assms have l: "l \<noteq> 0" and ws: "whole_scores P g" by simp_all
  have "\<forall>v\<in>set_node (root (score_cache g)).
          (fmul (Finite (of_int l)) v = Finite 0) = (v = Finite 0)"
    using ws fmul_whole_zero[OF l _ assms(2)] by (auto simp: whole_scores_def)
  from in_node_map[OF fmul_zero this]
  have "in_node (Finite 0) row (upper_bound row SIZE_MAX) 0
          (map_node (fmul (Finite (of_int l))) (root (score_cache g)))
        = in_node (Finite 0) row (upper_bound row SIZE_MAX) 0 (root (score_cache g))" .
  then show ?thesis using True
    by (auto simp: score_cached_def scale_scores_def tree_in_def split: sum.splits)
qed

lemma score_get_scale:
  "tree_get (score_cache (scale_scores l g)) row mx = map_sum id (fmul l) (tree_get (score_cache g) row mx)"
  by (simp add: tree_get_def scale_scores_def get_node_map)

lemma score_store_scale:
  fixes l :: int
  assumes "cache g \<longrightarrow> l \<noteq> 0 \<and> whole_scores P g" "\<bar>l\<bar> * int P \<le> 2 ^ 24"
  shows "score_store (scale_scores (Finite (of_int l)) g) row (fmul (Finite (of_int l)) v) =
         (case score_store g row v of Inl e \<Rightarrow> Inl e
          | Inr g2 \<Rightarrow> Inr (scale_scores (Finite (of_int l)) g2))"
proof (cases "cache g")
  case False
  then show ?thesis by (simp add: score_store_def scale_scores_def)
next
  case True
  with assms have l: "l \<noteq> 0" and ws: "whole_scores P g" by simp_all
  have "\<forall>v\<in>set_node (root (score_cache g)).
          (fmul (Finite (of_int l)) v = Finite 0) = (v = Finite 0)"
    using ws fmul_whole_zero[OF l _ assms(2)] by (auto simp: whole_scores_def)
  from add_node_map[OF fmul_zero this]
  have "add_node (Finite 0) row (fmul (Finite (of_int l)) v) (upper_bound row SIZE_MAX) 0
          (map_node (fmul (Finite (of_int l))) (root (score_cache g)))
        = map_sum id (map_node (fmul (Finite (of_int l))))
            (add_node (Finite 0) row v (upper_bound row SIZE_MAX) 0 (root (score_cache g)))" .
  then show ?thesis using True
    by (auto simp: score_store_def scale_scores_def tree_add_def split: sum.splits)
qed

lemma score_cached_whole:
  "score_cached g row = Inr (hit, g1) \<Longrightarrow>
   cache g1 = cache g \<and> whole_scores P g1 = whole_scores P g"
  by (auto simp: score_cached_def whole_scores_def tree_in_def split: if_splits sum.splits)

lemma score_store_whole:
  assumes "score_store g row v = Inr g2" "cache g \<longrightarrow> whole_scores P g" "whole P v"
  shows "cache g2 = cache g \<and> (cache g2 \<longrightarrow> whole_scores P g2)"
proof (cases "cache g")
  case False
  with assms show ?thesis by (simp add: score_store_def)
next
  case True
  with assms(1) have c: "cache g2 = cache g"
    by (auto simp: score_store_def split: sum.splits)
  have z: "whole P (Finite 0)" by (simp add: whole_def)
  from score_store_scores[OF assms(1)] assms(2,3) True z have "whole_scores P g2"
    unfolding whole_scores_def by blast
  with c show ?thesis by simp
qed

lemma rows_bounds:
  fixes L B M C n :: nat
  assumes "int L * (int B + int M * int C * int (Suc n)) \<le> 2 ^ 24"
  shows "int L * (int 0 + int M * int C) \<le> 2 ^ 24"
    "int L * (int B + int (M * C) + 0) \<le> 2 ^ 24"
    "int L * (int (B + M * C) + int M * int C * int n) \<le> 2 ^ 24"
proof -
  have e: "int B + int M * int C * int (Suc n) = int B + int M * int C + int M * int C * int n"
    by (simp add: algebra_simps)
  have "int L * (int 0 + int M * int C) \<le> int L * (int B + int M * int C + int M * int C * int n)"
    by (intro mult_left_mono) simp_all
  then show "int L * (int 0 + int M * int C) \<le> 2 ^ 24"
    using assms[unfolded e] by (rule order_trans)
  have "int L * (int B + int (M * C) + 0) \<le> int L * (int B + int M * int C + int M * int C * int n)"
    by (intro mult_left_mono) simp_all
  then show "int L * (int B + int (M * C) + 0) \<le> 2 ^ 24"
    using assms[unfolded e] by (rule order_trans)
  show "int L * (int (B + M * C) + int M * int C * int n) \<le> 2 ^ 24"
    using assms[unfolded e] by simp
qed

lemma scaled_runs_weaken: "scaled_runs l K P X Y \<Longrightarrow> K \<le> K' \<Longrightarrow> scaled_runs l K' P X Y"
  by (auto simp: scaled_runs_def split: sum.splits)

lemma scaled_runs_Inl: "scaled_runs l K P (Inl e) (Inl e)"
  by (simp add: scaled_runs_def)

text \<open>
  One row of the loop of \<open>md_rows\<close> and of \<open>cs_rows\<close>: the row score \<open>R\<close> of the run
  and \<open>R'\<close> of the run with the scaled weights are added to the scores, directly or
  through the cache, and the loops go on with the function \<open>next\<close>.
\<close>

lemma rows_step_whole:
  fixes l :: int and L M C :: nat
  assumes L: "\<bar>l\<bar> \<le> int L" "1 \<le> L"
    and cg: "cache g \<longrightarrow> l \<noteq> 0 \<and> whole_scores (M * C) g"
    and bd: "int L * (int B + int M * int C * int (Suc n)) \<le> 2 ^ 24" and a: "\<bar>a\<bar> \<le> int B"
    and mr: "scaled_run l (int M * int C) R R'"
    and nx: "\<And>b g1. \<bar>a + b\<bar> \<le> int (B + M * C) \<Longrightarrow> cache g1 \<longrightarrow> l \<noteq> 0 \<and> whole_scores (M * C) g1 \<Longrightarrow>
        scaled_runs l (int (B + M * C) + int M * int C * int n) (M * C)
          (nxt (Finite (of_int (a + b))) g1)
          (nxt' (Finite (of_int (l * (a + b)))) (scale_scores (Finite (of_int l)) g1))"
  shows "scaled_runs l (int B + int M * int C * int (Suc n)) (M * C)
     (case score_cached g row of
        Inl e \<Rightarrow> Inl e
      | Inr (hit, g1) \<Rightarrow>
          if hit then
            (case tree_get (score_cache g1) row SIZE_MAX of
               Inl e \<Rightarrow> Inl e
             | Inr v \<Rightarrow> nxt (fadd (Finite (of_int a)) v) g1)
          else
            (case R of
               Inl e \<Rightarrow> Inl e
             | Inr row_score \<Rightarrow>
                 (case score_store g1 row row_score of
                    Inl e \<Rightarrow> Inl e
                  | Inr g2 \<Rightarrow> nxt (fadd (Finite (of_int a)) row_score) g2)))
     (case score_cached (scale_scores (Finite (of_int l)) g) row of
        Inl e \<Rightarrow> Inl e
      | Inr (hit, g1) \<Rightarrow>
          if hit then
            (case tree_get (score_cache g1) row SIZE_MAX of
               Inl e \<Rightarrow> Inl e
             | Inr v \<Rightarrow> nxt' (fadd (Finite (of_int (l * a))) v) g1)
          else
            (case R' of
               Inl e \<Rightarrow> Inl e
             | Inr row_score \<Rightarrow>
                 (case score_store g1 row row_score of
                    Inl e \<Rightarrow> Inl e
                  | Inr g2 \<Rightarrow> nxt' (fadd (Finite (of_int (l * a))) row_score) g2)))"
proof -
  let ?f = "Finite (of_int l)"
  let ?K = "int B + int M * int C * int (Suc n)"
  note rb = rows_bounds[OF bd]
  have lp: "\<bar>l\<bar> * int (M * C) \<le> 2 ^ 24"
  proof -
    have "\<bar>l\<bar> * int (M * C) \<le> int L * (int 0 + int M * int C)"
      using L(1) by (intro mult_mono) simp_all
    then show ?thesis using rb(1) by (rule order_trans)
  qed
  note sc = score_cached_scale[OF cg lp, of row]
  have kk: "int (B + M * C) + int M * int C * int n \<le> ?K" by (simp add: algebra_simps)
  have add: "\<And>b. \<bar>b\<bar> \<le> int (M * C) \<Longrightarrow>
      fadd (Finite (of_int a)) (Finite (of_int b)) = Finite (of_int (a + b)) \<and>
      fadd (Finite (of_int (l * a))) (Finite (of_int (l * b))) = Finite (of_int (l * (a + b))) \<and>
      fmul ?f (Finite (of_int b)) = Finite (of_int (l * b)) \<and> \<bar>a + b\<bar> \<le> int (B + M * C)"
  proof -
    fix b :: int assume b: "\<bar>b\<bar> \<le> int (M * C)"
    have z: "(0::int) \<le> 0" by simp
    note wb = whole_bounds[OF L rb(2) z a b]
    have "fadd (Finite (of_int a)) (Finite (of_int b)) = Finite (of_int (a + b))"
      by (rule fadd_whole) (rule wb)
    moreover have "fadd (Finite (of_int (l * a))) (Finite (of_int (l * b))) = Finite (of_int (l * (a + b)))"
      using fadd_whole[of "l * a" "l * b"] wb(3) by (simp add: distrib_left)
    moreover have "fmul ?f (Finite (of_int b)) = Finite (of_int (l * b))"
      using fmul_whole[of l b] wb(2) by simp
    moreover have "\<bar>a + b\<bar> \<le> int (B + M * C)" using a b by simp
    ultimately show "fadd (Finite (of_int a)) (Finite (of_int b)) = Finite (of_int (a + b)) \<and>
      fadd (Finite (of_int (l * a))) (Finite (of_int (l * b))) = Finite (of_int (l * (a + b))) \<and>
      fmul ?f (Finite (of_int b)) = Finite (of_int (l * b)) \<and> \<bar>a + b\<bar> \<le> int (B + M * C)"
      by simp
  qed
  show ?thesis
  proof (cases "score_cached g row")
    case (Inl e)
    with sc show ?thesis by (simp add: scaled_runs_def)
  next
    case (Inr p)
    obtain hit g1 where p: "p = (hit, g1)" by (cases p)
    from score_cached_whole[OF Inr[unfolded p]] cg
    have cg1: "cache g1 \<longrightarrow> l \<noteq> 0 \<and> whole_scores (M * C) g1" and c1: "cache g1 = cache g" by simp_all
    show ?thesis
    proof (cases hit)
      case True
      with Inr p have cache_on: "cache g" by (auto simp: score_cached_def split: if_splits)
      with cg1 c1 have ws1: "whole_scores (M * C) g1" by simp
      show ?thesis
      proof (cases "tree_get (score_cache g1) row SIZE_MAX")
        case (Inl e)
        with Inr p True sc show ?thesis by (simp add: scaled_runs_def score_get_scale)
      next
        case gv: (Inr v)
        from score_get_scores[OF gv] ws1 have "whole (M * C) v" by (simp add: whole_scores_def)
        then obtain b :: int where b: "v = Finite (of_int b)" "\<bar>b\<bar> \<le> int (M * C)"
          unfolding whole_iff by blast
        note ad = add[OF b(2)]
        from nx[OF _ cg1, of b] ad
        have "scaled_runs l (int (B + M * C) + int M * int C * int n) (M * C)
          (nxt (Finite (of_int (a + b))) g1)
          (nxt' (Finite (of_int (l * (a + b)))) (scale_scores ?f g1))" by simp
        then have "scaled_runs l ?K (M * C)
          (nxt (Finite (of_int (a + b))) g1)
          (nxt' (Finite (of_int (l * (a + b)))) (scale_scores ?f g1))"
          using kk by (rule scaled_runs_weaken)
        with Inr p True sc gv b(1) ad show ?thesis by (simp add: score_get_scale)
      qed
    next
      case False
      show ?thesis
      proof (cases R)
        case (Inl e)
        with mr have "R' = Inl e" by (simp add: scaled_run_def)
        with Inl Inr p False sc show ?thesis by (simp add: scaled_runs_def)
      next
        case rs: (Inr v)
        with mr obtain b :: int where b: "v = Finite (of_int b)" "\<bar>b\<bar> \<le> int M * int C"
          and sr: "R' = Inr (Finite (of_int (l * b)))"
          by (auto simp: scaled_run_def)
        from b(2) have b': "\<bar>b\<bar> \<le> int (M * C)" by simp
        note ad = add[OF b']
        have wv: "whole (M * C) v" unfolding whole_iff using b(1) b' by blast
        from ad have fv: "Finite (of_int (l * b)) = fmul ?f v" unfolding b(1) by simp
        note st = score_store_scale[OF cg1 lp, of row v]
        show ?thesis
        proof (cases "score_store g1 row v")
          case (Inl e)
          with Inr p False sc rs sr st fv show ?thesis by (simp add: scaled_runs_def)
        next
          case g2: (Inr g2)
          from score_store_whole[OF g2 _ wv] cg1 c1
          have cg2: "cache g2 \<longrightarrow> l \<noteq> 0 \<and> whole_scores (M * C) g2" by auto
          from nx[OF _ cg2, of b] ad
          have "scaled_runs l (int (B + M * C) + int M * int C * int n) (M * C)
            (nxt (Finite (of_int (a + b))) g2)
            (nxt' (Finite (of_int (l * (a + b)))) (scale_scores ?f g2))" by simp
          then have "scaled_runs l ?K (M * C)
            (nxt (Finite (of_int (a + b))) g2)
            (nxt' (Finite (of_int (l * (a + b)))) (scale_scores ?f g2))"
            using kk by (rule scaled_runs_weaken)
          with Inr p False sc rs sr st fv g2 b(1) ad show ?thesis by simp
        qed
      qed
    qed
  qed
qed

lemma md_rows_whole:
  fixes l :: int and L M :: nat
  assumes ww: "whole_weights M w" and L: "\<bar>l\<bar> \<le> int L" "1 \<le> L"
  shows "cache g \<longrightarrow> l \<noteq> 0 \<and> whole_scores (M * columns w) g \<Longrightarrow>
     int L * (int B + int M * int (columns w) * int (length rs)) \<le> 2 ^ 24 \<Longrightarrow> \<bar>a\<bar> \<le> int B \<Longrightarrow>
     scaled_runs l (int B + int M * int (columns w) * int (length rs)) (M * columns w)
       (md_rows w orig rs (Finite (of_int a)) g)
       (md_rows (scale_weights (Finite (of_int l)) w) (scale_weights (Finite (of_int l)) orig)
          rs (Finite (of_int (l * a))) (scale_scores (Finite (of_int l)) g))"
proof (induction rs arbitrary: a B g)
  case Nil
  then show ?case by (simp add: scaled_runs_def)
next
  case (Cons r rs)
  let ?sw = "scale_weights (Finite (of_int l)) w" and ?so = "scale_weights (Finite (of_int l)) orig"
  let ?C = "columns w"
  have bd: "int L * (int B + int M * int ?C * int (Suc (length rs))) \<le> 2 ^ 24"
    using Cons.prems(2) by simp
  note rb = rows_bounds[OF bd]
  show ?case
  proof (cases "construct_view w r")
    case (Inl e)
    then show ?thesis by (simp add: scaled_runs_def construct_view_scale)
  next
    case (Inr row)
    have z: "\<bar>0::int\<bar> \<le> int 0" by simp
    from md_row_whole[OF ww L, of 0 "[0..<?C]" 0 orig r row] rb(1)
    have mr: "scaled_run l (int M * int ?C)
       (md_row w orig r row [0..<?C] (Finite 0))
       (md_row ?sw ?so r row [0..<?C] (Finite 0))" by simp
    have nx: "\<And>b g1. \<bar>a + b\<bar> \<le> int (B + M * ?C) \<Longrightarrow>
        cache g1 \<longrightarrow> l \<noteq> 0 \<and> whole_scores (M * ?C) g1 \<Longrightarrow>
        scaled_runs l (int (B + M * ?C) + int M * int ?C * int (length rs)) (M * ?C)
          (md_rows w orig rs (Finite (of_int (a + b))) g1)
          (md_rows ?sw ?so rs (Finite (of_int (l * (a + b)))) (scale_scores (Finite (of_int l)) g1))"
      by (rule Cons.IH[OF _ rb(3)])
    have e: "int (length (r # rs)) = int (Suc (length rs))" by simp
    show ?thesis
      unfolding md_rows.simps construct_view_scale columns_scale Inr sum.case e
      by (rule rows_step_whole[where nxt = "md_rows w orig rs" and nxt' = "md_rows ?sw ?so rs",
            OF L Cons.prems(1) bd Cons.prems(3) mr nx])
  qed
qed

lemma cs_rows_whole:
  fixes l :: int and L M :: nat
  assumes ww: "whole_weights M orig" and L: "\<bar>l\<bar> \<le> int L" "1 \<le> L"
    and sup: "\<forall>r\<in>set rs0. \<forall>c<columns w. index w r c = index orig r c \<or> index w r c = Inr ''*''"
  shows "set rs \<subseteq> set rs0 \<Longrightarrow> cache g \<longrightarrow> l \<noteq> 0 \<and> whole_scores (M * columns w) g \<Longrightarrow>
     int L * (int B + int M * int (columns w) * int (length rs)) \<le> 2 ^ 24 \<Longrightarrow> \<bar>a\<bar> \<le> int B \<Longrightarrow>
     scaled_runs l (int B + int M * int (columns w) * int (length rs)) (M * columns w)
       (cs_rows w orig rs (Finite (of_int a)) g)
       (cs_rows (scale_weights (Finite (of_int l)) w) (scale_weights (Finite (of_int l)) orig)
          rs (Finite (of_int (l * a))) (scale_scores (Finite (of_int l)) g))"
proof (induction rs arbitrary: a B g)
  case Nil
  then show ?case by (simp add: scaled_runs_def)
next
  case (Cons r rs)
  let ?sw = "scale_weights (Finite (of_int l)) w" and ?so = "scale_weights (Finite (of_int l)) orig"
  let ?C = "columns w"
  from Cons.prems(1) have sub: "set rs \<subseteq> set rs0" and rin: "r \<in> set rs0" by simp_all
  have bd: "int L * (int B + int M * int ?C * int (Suc (length rs))) \<le> 2 ^ 24"
    using Cons.prems(3) by simp
  note rb = rows_bounds[OF bd]
  show ?case
  proof (cases "construct_view w r")
    case (Inl e)
    then show ?thesis by (simp add: scaled_runs_def construct_view_scale)
  next
    case (Inr row)
    have s: "\<forall>c\<in>set [0..<?C]. index orig r c = Inr (row ! c) \<or> row ! c = ''*''"
    proof
      fix c assume "c \<in> set [0..<?C]"
      then have c: "c < ?C" by simp
      from construct_view_nth[OF Inr c] sup rin c show "index orig r c = Inr (row ! c) \<or> row ! c = ''*''"
        by (metis sum.inject(2))
    qed
    from cs_row_whole[OF ww L s, of "[0..<?C]" 0 0 w] rb(1)
    have mr: "scaled_run l (int M * int ?C)
       (cs_row w orig r row [0..<?C] (Finite 0))
       (cs_row ?sw ?so r row [0..<?C] (Finite 0))" by simp
    have nx: "\<And>b g1. \<bar>a + b\<bar> \<le> int (B + M * ?C) \<Longrightarrow>
        cache g1 \<longrightarrow> l \<noteq> 0 \<and> whole_scores (M * ?C) g1 \<Longrightarrow>
        scaled_runs l (int (B + M * ?C) + int M * int ?C * int (length rs)) (M * ?C)
          (cs_rows w orig rs (Finite (of_int (a + b))) g1)
          (cs_rows ?sw ?so rs (Finite (of_int (l * (a + b)))) (scale_scores (Finite (of_int l)) g1))"
      by (rule Cons.IH[OF sub _ rb(3)])
    have e: "int (length (r # rs)) = int (Suc (length rs))" by simp
    show ?thesis
      unfolding cs_rows.simps construct_view_scale columns_scale Inr sum.case e
      by (rule rows_step_whole[where nxt = "cs_rows w orig rs" and nxt' = "cs_rows ?sw ?so rs",
            OF L Cons.prems(2) bd Cons.prems(4) mr nx])
  qed
qed

lemma scaled_runs_result:
  fixes l :: int and L :: nat
  assumes sr: "scaled_runs l K P X Y" and L: "\<bar>l\<bar> \<le> int L" and K: "0 \<le> K" "int L * K \<le> 2 ^ 24"
  shows "Y = scale_result (Finite (of_int l)) X"
proof (cases X)
  case (Inl e)
  with sr show ?thesis by (simp add: scaled_runs_def scale_result_def)
next
  case (Inr p)
  obtain s g1 where p: "p = (s, g1)" by (cases p)
  from sr Inr p obtain b :: int where b: "s = Finite (of_int b)" "\<bar>b\<bar> \<le> K"
    and y: "Y = Inr (Finite (of_int (l * b)), scale_scores (Finite (of_int l)) g1)"
    by (auto simp: scaled_runs_def)
  have "\<bar>l\<bar> * \<bar>b\<bar> \<le> int L * K" using L b(2) by (intro mult_mono) simp_all
  then have "\<bar>l\<bar> * \<bar>b\<bar> \<le> 2 ^ 24" using K(2) by (rule order_trans)
  then have "\<bar>l * b\<bar> \<le> 2 ^ 24" by (simp add: abs_mult)
  from fmul_whole[OF this] Inr p b(1) y show ?thesis by (simp add: scale_result_def)
qed

lemma minimal_distortion_whole:
  fixes l :: int
  assumes ww: "whole_weights M w"
    and cg: "cache g \<longrightarrow> l \<noteq> 0 \<and> whole_scores (M * columns w) g"
    and bd: "max 1 (nat \<bar>l\<bar>) * (M * columns w * rows w) \<le> 2 ^ 24"
  shows "minimal_distortion (scale_weights (Finite (of_int l)) w) (scale_weights (Finite (of_int l)) orig)
           (scale_scores (Finite (of_int l)) g)
         = scale_result (Finite (of_int l)) (minimal_distortion w orig g)"
proof -
  let ?L = "max 1 (nat \<bar>l\<bar>)" and ?K = "int M * int (columns w) * int (rows w)"
  have L: "\<bar>l\<bar> \<le> int ?L" "1 \<le> ?L" by simp_all
  from bd have "int (?L * (M * columns w * rows w)) \<le> int (2 ^ 24)" by (simp only: of_nat_le_iff)
  then have b: "int ?L * ?K \<le> 2 ^ 24" by (simp add: mult.assoc)
  then have b0: "int ?L * (int 0 + int M * int (columns w) * int (length [0..<rows w])) \<le> 2 ^ 24"
    by simp
  have z: "\<bar>0::int\<bar> \<le> int 0" by simp
  from md_rows_whole[OF ww L cg b0 z, of orig]
  have sr: "scaled_runs l ?K (M * columns w)
       (md_rows w orig [0..<rows w] (Finite 0) g)
       (md_rows (scale_weights (Finite (of_int l)) w)
          (scale_weights (Finite (of_int l)) orig) [0..<rows w] (Finite 0)
          (scale_scores (Finite (of_int l)) g))" by simp
  show ?thesis
    unfolding minimal_distortion_def rows_scale
    by (rule scaled_runs_result[OF sr L(1) _ b]) simp
qed

lemma certainty_score_whole:
  fixes l :: int
  assumes ww: "whole_weights M orig" and so: "suppressed_only w orig"
    and cg: "cache g \<longrightarrow> l \<noteq> 0 \<and> whole_scores (M * columns w) g"
    and bd: "max 1 (nat \<bar>l\<bar>) * (M * columns w * rows w) \<le> 2 ^ 24"
  shows "certainty_score (scale_weights (Finite (of_int l)) w) (scale_weights (Finite (of_int l)) orig)
           (scale_scores (Finite (of_int l)) g)
         = scale_result (Finite (of_int l)) (certainty_score w orig g)"
proof -
  let ?L = "max 1 (nat \<bar>l\<bar>)" and ?K = "int M * int (columns w) * int (rows w)"
  have L: "\<bar>l\<bar> \<le> int ?L" "1 \<le> ?L" by simp_all
  from bd have "int (?L * (M * columns w * rows w)) \<le> int (2 ^ 24)" by (simp only: of_nat_le_iff)
  then have b: "int ?L * ?K \<le> 2 ^ 24" by (simp add: mult.assoc)
  then have b0: "int ?L * (int 0 + int M * int (columns w) * int (length [0..<rows w])) \<le> 2 ^ 24"
    by simp
  have z: "\<bar>0::int\<bar> \<le> int 0" by simp
  from so have sup: "\<forall>r\<in>set [0..<rows w]. \<forall>c<columns w.
      index w r c = index orig r c \<or> index w r c = Inr ''*''"
    by (simp add: suppressed_only_def list_all_iff)
  from cs_rows_whole[OF ww L sup subset_refl cg b0 z]
  have sr: "scaled_runs l ?K (M * columns w)
       (cs_rows w orig [0..<rows w] (Finite 0) g)
       (cs_rows (scale_weights (Finite (of_int l)) w)
          (scale_weights (Finite (of_int l)) orig) [0..<rows w] (Finite 0)
          (scale_scores (Finite (of_int l)) g))" by simp
  show ?thesis
    unfolding certainty_score_def rows_scale
    by (rule scaled_runs_result[OF sr L(1) _ b]) simp
qed

text \<open>
  Claim C7, as the code has it.  \<^verbatim>\<open>minimal_distortion\<close> takes the weights from the columns
  of the working table and \<^verbatim>\<open>certainty_score\<close> from those of the original.  When none of
  these weights and no score in the cache is negative or NaN, the score that
  \<^verbatim>\<open>minimal_distortion\<close> returns is \<open>0\<close> or more (it can be the infinity), and the score
  that \<^verbatim>\<open>certainty_score\<close> returns is \<open>0\<close> or more or NaN.  The sums are float sums,
  so a score follows the weights exactly only while nothing is rounded: when the weights
  are whole numbers of magnitude \<open>M\<close> at most and \<open>l\<close> is a whole number with
  \<open>max 1 \<bar>l\<bar> * M * columns * rows \<le> 2 ^ 24\<close>, the run with every weight multiplied by
  \<open>l\<close> fails or returns as the run before, with the score multiplied by \<open>l\<close>; for
  \<^verbatim>\<open>certainty_score\<close> when every changed cell is suppressed, so that each penalty is 1.
  With the cache switched on the two runs are compared from caches that correspond, the
  scores stored in the second being \<open>l\<close> times those of the first (two empty caches,
  as at the start of the program, correspond), for \<open>l \<noteq> 0\<close> and stored scores that
  are whole numbers of magnitude \<open>M * columns\<close> at most, as the scores of rows are; the
  caches correspond again after the runs.
\<close>

theorem scores_nonneg_and_scaling:
  "(nonneg_weights w \<and> nonneg_scores g \<and> minimal_distortion w orig g = Inr (s, g') \<longrightarrow> nonneg s) \<and>
   (nonneg_weights orig \<and> nonneg_scores g \<and> certainty_score w orig g = Inr (s, g') \<longrightarrow>
      nonneg s \<or> s = NaN) \<and>
   (whole_weights M w \<and> (cache g \<longrightarrow> l \<noteq> 0 \<and> whole_scores (M * columns w) g) \<and>
    max 1 (nat \<bar>l\<bar>) * (M * columns w * rows w) \<le> 2 ^ 24 \<longrightarrow>
      minimal_distortion (scale_weights (Finite (of_int l)) w) (scale_weights (Finite (of_int l)) orig)
          (scale_scores (Finite (of_int l)) g)
        = scale_result (Finite (of_int l)) (minimal_distortion w orig g)) \<and>
   (whole_weights M orig \<and> suppressed_only w orig \<and>
    (cache g \<longrightarrow> l \<noteq> 0 \<and> whole_scores (M * columns w) g) \<and>
    max 1 (nat \<bar>l\<bar>) * (M * columns w * rows w) \<le> 2 ^ 24 \<longrightarrow>
      certainty_score (scale_weights (Finite (of_int l)) w) (scale_weights (Finite (of_int l)) orig)
          (scale_scores (Finite (of_int l)) g)
        = scale_result (Finite (of_int l)) (certainty_score w orig g))"
proof (intro conjI impI)
  assume "nonneg_weights w \<and> nonneg_scores g \<and> minimal_distortion w orig g = Inr (s, g')"
  then show "nonneg s"
    using md_rows_nonneg[of w g "Finite 0" orig "[0..<rows w]" s g']
    by (simp add: minimal_distortion_def nonneg_0)
next
  assume a: "nonneg_weights orig \<and> nonneg_scores g \<and> certainty_score w orig g = Inr (s, g')"
  then have "\<forall>v\<in>set_node (root (score_cache g)). nonneg v \<or> v = NaN"
    by (simp add: nonneg_scores_def)
  with a show "nonneg s \<or> s = NaN"
    using cs_rows_notneg[of orig g "Finite 0" w "[0..<rows w]" s g']
    by (simp add: certainty_score_def nonneg_0)
next
  assume "whole_weights M w \<and> (cache g \<longrightarrow> l \<noteq> 0 \<and> whole_scores (M * columns w) g) \<and>
    max 1 (nat \<bar>l\<bar>) * (M * columns w * rows w) \<le> 2 ^ 24"
  then show "minimal_distortion (scale_weights (Finite (of_int l)) w) (scale_weights (Finite (of_int l)) orig)
          (scale_scores (Finite (of_int l)) g)
        = scale_result (Finite (of_int l)) (minimal_distortion w orig g)"
    using minimal_distortion_whole by blast
next
  assume "whole_weights M orig \<and> suppressed_only w orig \<and>
    (cache g \<longrightarrow> l \<noteq> 0 \<and> whole_scores (M * columns w) g) \<and>
    max 1 (nat \<bar>l\<bar>) * (M * columns w * rows w) \<le> 2 ^ 24"
  then show "certainty_score (scale_weights (Finite (of_int l)) w) (scale_weights (Finite (of_int l)) orig)
          (scale_scores (Finite (of_int l)) g)
        = scale_result (Finite (of_int l)) (certainty_score w orig g)"
    using certainty_score_whole by blast
qed

text \<open>
  The theorem at the table (A),(*) with both cells suppressed, weights 1, from the empty
  cache switched on: the score 2 is not negative, and with the weights multiplied by 3
  the score is 6 under both metrics.
\<close>

theorem scores_nonneg_and_scaling_witness:
  "nonneg_weights starred_working \<and> nonneg_weights starred_original \<and>
   nonneg_scores (globals0 True) \<and>
   map_sum id fst (minimal_distortion starred_working starred_original (globals0 True))
     = Inr (Finite 2) \<and>
   map_sum id fst (certainty_score starred_working starred_original (globals0 True))
     = Inr (Finite 2) \<and>
   nonneg (Finite 2) \<and>
   whole_weights 1 starred_working \<and> whole_weights 1 starred_original \<and>
   suppressed_only starred_working starred_original \<and> whole_scores 1 (globals0 True) \<and>
   scale_scores (Finite 3) (globals0 True) = globals0 True \<and>
   map_sum id fst (minimal_distortion (scale_weights (Finite 3) starred_working)
       (scale_weights (Finite 3) starred_original) (globals0 True))
     = Inr (Finite 6) \<and>
   map_sum id fst (certainty_score (scale_weights (Finite 3) starred_working)
       (scale_weights (Finite 3) starred_original) (globals0 True))
     = Inr (Finite 6)"
proof -
  note ev = starred_working_def starred_original_def table_eval globals0_def metric_eval upt_rec
  let ?g = "globals0 True"
  have nw: "nonneg_weights starred_working" "nonneg_weights starred_original"
    by (simp_all add: nonneg_weights_def nonneg_iff ev)
  have ns: "nonneg_scores ?g"
    by (simp add: nonneg_scores_def nonneg_iff globals0_def empty_tree_def)
  have m: "map_sum id fst (minimal_distortion starred_working starred_original ?g) = Inr (Finite 2)"
    by (simp add: ev tree_eval)
  have c: "map_sum id fst (certainty_score starred_working starred_original ?g) = Inr (Finite 2)"
    by (simp add: ev tree_eval)
  from m obtain g1 where m1: "minimal_distortion starred_working starred_original ?g = Inr (Finite 2, g1)"
    by (cases "minimal_distortion starred_working starred_original ?g") auto
  from c obtain g2 where c1: "certainty_score starred_working starred_original ?g = Inr (Finite 2, g2)"
    by (cases "certainty_score starred_working starred_original ?g") auto
  have ww: "whole_weights 1 starred_working" "whole_weights 1 starred_original"
    by (simp_all add: whole_weights_def whole_def ev)
  have so: "suppressed_only starred_working starred_original"
    by (simp add: suppressed_only_def ev)
  have ws: "whole_scores 1 ?g"
    by (simp add: whole_scores_def whole_def globals0_def empty_tree_def)
  have sg: "scale_scores (Finite 3) ?g = ?g"
    by (simp add: scale_scores_def globals0_def empty_tree_def float_eval)
  have cg: "cache ?g \<longrightarrow> (3::int) \<noteq> 0 \<and> whole_scores (1 * columns starred_working) ?g"
    using ws by (simp add: ev)
  have b: "max 1 (nat \<bar>3::int\<bar>) * (1 * columns starred_working * rows starred_working) \<le> 2 ^ 24"
    by (simp add: ev)
  note t = scores_nonneg_and_scaling[where w = starred_working and orig = starred_original
      and g = ?g and s = "Finite 2" and M = 1 and l = 3]
  from t[where g' = g1] nw ns m1 have n2: "nonneg (Finite 2)" by blast
  from t[where g' = g1] ww cg b
  have "minimal_distortion (scale_weights (Finite (of_int 3)) starred_working)
      (scale_weights (Finite (of_int 3)) starred_original) (scale_scores (Finite (of_int 3)) ?g)
    = scale_result (Finite (of_int 3)) (minimal_distortion starred_working starred_original ?g)"
    by blast
  then have m3: "map_sum id fst (minimal_distortion (scale_weights (Finite 3) starred_working)
       (scale_weights (Finite 3) starred_original) ?g) = Inr (Finite 6)"
    unfolding m1 by (simp add: sg scale_result_def float_eval)
  from t[where g' = g2] ww so cg b
  have "certainty_score (scale_weights (Finite (of_int 3)) starred_working)
      (scale_weights (Finite (of_int 3)) starred_original) (scale_scores (Finite (of_int 3)) ?g)
    = scale_result (Finite (of_int 3)) (certainty_score starred_working starred_original ?g)"
    by blast
  then have c3: "map_sum id fst (certainty_score (scale_weights (Finite 3) starred_working)
       (scale_weights (Finite 3) starred_original) ?g) = Inr (Finite 6)"
    unfolding c1 by (simp add: sg scale_result_def float_eval)
  from nw ns m c n2 ww so ws sg m3 c3 show ?thesis by simp
qed

text \<open>
  Claim C7 as stated fails in three ways.  A negative weight, which the program accepts
  (its help text gives \<^verbatim>\<open>1,-10,50000\<close> as weights): one suppressed cell in a column of
  weight \<open>- 10\<close> scores \<open>- 10\<close> under both metrics.  A division of zero by zero: a
  range in a column of integers whose own range has the width 0 scores NaN, which is not
  \<open>0\<close> or more.  And rounding: with the weights \<open>2 ^ 24\<close> and 1 a row with both cells
  suppressed scores \<open>2 ^ 24\<close> (the sum \<open>2 ^ 24 + 1\<close> is no float), and with the weights
  multiplied by 3 it scores 50331652, where 3 times the score is 50331648.
\<close>

theorem scores_negative_rounded_nan_counterexample:
  "minimal_distortion negative_working negative_original (globals0 False)
     = Inr (Finite (- 10), globals0 False) \<and>
   certainty_score negative_working negative_original (globals0 False)
     = Inr (Finite (- 10), globals0 False) \<and>
   \<not> nonneg (Finite (- 10)) \<and>
   certainty_score age_working age_original (globals0 False) = Inr (NaN, globals0 False) \<and>
   \<not> nonneg NaN \<and>
   minimal_distortion heavy_working heavy_original (globals0 False)
     = Inr (Finite 16777216, globals0 False) \<and>
   minimal_distortion (scale_weights (Finite 3) heavy_working)
       (scale_weights (Finite 3) heavy_original) (globals0 False)
     = Inr (Finite 50331652, globals0 False) \<and>
   certainty_score heavy_working heavy_original (globals0 False)
     = Inr (Finite 16777216, globals0 False) \<and>
   certainty_score (scale_weights (Finite 3) heavy_working)
       (scale_weights (Finite 3) heavy_original) (globals0 False)
     = Inr (Finite 50331652, globals0 False) \<and>
   fmul (Finite 3) (Finite 16777216) = Finite 50331648"
proof -
  note ev = table_eval globals0_def metric_eval upt_rec rnd_neg_numeral
  have 1: "minimal_distortion negative_working negative_original (globals0 False)
     = Inr (Finite (- 10), globals0 False)"
    "certainty_score negative_working negative_original (globals0 False)
     = Inr (Finite (- 10), globals0 False)"
    by (simp_all add: negative_working_def negative_original_def ev)
  have 2: "\<not> nonneg (Finite (- 10))" "\<not> nonneg NaN" by (simp_all add: nonneg_iff)
  have 3: "certainty_score age_working age_original (globals0 False) = Inr (NaN, globals0 False)"
    by (simp add: age_working_def age_original_def age_column_def ev Range_of_string_def stoi_def
        number_prefix_def is_space_def is_digit_def signed_value_def decimal_def digit_val_def
        is_int_def size_t_of_int_def range_width_def)
  note hv = heavy_working_def heavy_original_def scale_weights_def scale_column_def
    rnd_16777217 rnd_50331648 rnd_50331651 rnd_50331652
  have 4: "minimal_distortion heavy_working heavy_original (globals0 False)
     = Inr (Finite 16777216, globals0 False)"
    "certainty_score heavy_working heavy_original (globals0 False)
     = Inr (Finite 16777216, globals0 False)"
    by (simp_all add: hv ev)
  have 5: "minimal_distortion (scale_weights (Finite 3) heavy_working)
       (scale_weights (Finite 3) heavy_original) (globals0 False)
     = Inr (Finite 50331652, globals0 False)"
    "certainty_score (scale_weights (Finite 3) heavy_working)
       (scale_weights (Finite 3) heavy_original) (globals0 False)
     = Inr (Finite 50331652, globals0 False)"
    by (simp_all add: hv ev)
  have 6: "fmul (Finite 3) (Finite 16777216) = Finite 50331648"
    by (simp add: fmul_def rnd_50331648)
  from 1 2 3 4 5 6 show ?thesis by simp
qed

section \<open>The MinGen search\<close>

lemma anonymize_worker_numeral:
  "anonymize_worker (numeral n) = worker_body (anonymize_worker (pred_numeral n))"
  by (simp add: numeral_eq_Suc)

lemma pick_mode_numeral:
  "pick_mode (numeral n) old g =
     (case draw 1 6 (rng_shared g) of
        Inl e \<Rightarrow> Inl e
      | Inr (v, r) \<Rightarrow>
          if v = old then pick_mode (pred_numeral n) old (g\<lparr>rng_shared := r, mode_shared := v\<rparr>)
          else Inr (g\<lparr>rng_shared := r, mode_shared := v\<rparr>))"
  by (simp add: numeral_eq_Suc)

lemmas mg_eval = MinGen_anonymize_def MinGen_new_def reset_def worker_body_def try_mutation_def
  prune_test_def score_results_def configured_score_def set_cell_def mutations_def mutations_list_def
  get_distinct_def draw_def rng0_def anonymize_worker_numeral pick_mode_numeral

lemma anonymize_already_anonymous:
  assumes "k_anonymity (original_mg s) (original_mg s) k
             ((columns (original_mg s) + 2 ^ 64 - 1) mod 2 ^ 64) g = Inr (True, g1)"
  shows "MinGen_anonymize k m iters fuel s g =
     Inr (s\<lparr>k_mg := k, m_mg := m, max_mg := iters, working_mg := original_mg s,
            stdout_mg := stdout_mg s @ [Notice ''Already meets K-Anonymity Threshold!'']\<rparr>, g1)"
  using assms by (simp add: MinGen_anonymize_def Let_def)

text \<open>
  Claim C10.  When \<^verbatim>\<open>k_anonymity\<close> answers true for the original table against itself
  over all its columns, \<^verbatim>\<open>anonymize\<close> on a new \<^verbatim>\<open>MinGen\<close> object returns with the
  parameters stored, the working table set to the original and the notice printed, and
  nothing else: no state is counted, the set of best tables is empty and \<^verbatim>\<open>best\<close> is
  still \<^verbatim>\<open>INFINITY\<close>.  This holds for every \<open>fuel\<close>, also for 0, with which the worker
  could not take a single step: the search is not entered.
\<close>

theorem already_anonymous_returns:
  "k_anonymity orig orig k ((columns orig + 2 ^ 64 - 1) mod 2 ^ 64) g = Inr (True, g1) \<longrightarrow>
   (\<exists>s'. MinGen_anonymize k m iters fuel (MinGen_new orig) g = Inr (s', g1) \<and>
         s' = (MinGen_new orig)\<lparr>k_mg := k, m_mg := m, max_mg := iters, working_mg := orig,
                 stdout_mg := [Notice ''Already meets K-Anonymity Threshold!'']\<rparr> \<and>
         states_mg s' = 0 \<and> tables_mg s' = [] \<and> best_mg s' = PlusInf)"
proof
  assume a: "k_anonymity orig orig k ((columns orig + 2 ^ 64 - 1) mod 2 ^ 64) g = Inr (True, g1)"
  have o: "original_mg (MinGen_new orig) = orig" and p: "stdout_mg (MinGen_new orig) = []"
    and q: "states_mg (MinGen_new orig) = 0" "tables_mg (MinGen_new orig) = []"
      "best_mg (MinGen_new orig) = PlusInf"
    by (simp_all add: MinGen_new_def reset_def)
  from a have "MinGen_anonymize k m iters fuel (MinGen_new orig) g =
     Inr ((MinGen_new orig)\<lparr>k_mg := k, m_mg := m, max_mg := iters, working_mg := orig,
            stdout_mg := [Notice ''Already meets K-Anonymity Threshold!'']\<rparr>, g1)"
    using anonymize_already_anonymous[of "MinGen_new orig" k g g1 m iters fuel] by (simp add: o p)
  then show "\<exists>s'. MinGen_anonymize k m iters fuel (MinGen_new orig) g = Inr (s', g1) \<and>
         s' = (MinGen_new orig)\<lparr>k_mg := k, m_mg := m, max_mg := iters, working_mg := orig,
                 stdout_mg := [Notice ''Already meets K-Anonymity Threshold!'']\<rparr> \<and>
         states_mg s' = 0 \<and> tables_mg s' = [] \<and> best_mg s' = PlusInf"
    by (simp add: q)
qed

lemma k_tree_original: "k_tree [[0, 1], [0, 1], [2, 3], [2, 3]] [] (replicate 4 {}) 0 = [{0,1},{0,1},{2,3},{2,3}]"
  by (simp add: k_tree.simps numeral_eq_Suc insert_commute)

lemma k_matches_original: "k_matches four_rows_original four_rows_original 2 0 [0..<4] [] (globals0 False)
   = Inr (Some [[0, 1], [0, 1], [2, 3], [2, 3]], globals0 False)"
  by (simp add: four_rows_original_def table_eval globals0_def match_row_def field_matches_def upt_rec)

lemma k_anonymity_original:
  "k_anonymity four_rows_original four_rows_original 2 0 (globals0 False) = Inr (True, globals0 False)"
proof -
  have r: "rows four_rows_original = 4" and d: "default_column four_rows_original 0 = 0"
    by (simp_all add: four_rows_original_def one_column_def plain_column_def default_column_def SIZE_MAX_def)
  have l: "length [[0, 1], [0, 1], [2, 3], [2, 3::nat]] = 4" by simp
  show ?thesis
    unfolding k_anonymity_def r d k_matches_original sum.case prod.case option.case l k_tree_original by simp
qed

text \<open>The theorem at the table (M),(M),(F),(F) with \<open>k = 2\<close>, which is 2-anonymous.\<close>

theorem already_anonymous_returns_witness:
  "k_anonymity four_rows_original four_rows_original 2 0 (globals0 False) = Inr (True, globals0 False) \<and>
   MinGen_anonymize 2 md SIZE_MAX 0 (MinGen_new four_rows_original) (globals0 False) =
     Inr ((MinGen_new four_rows_original)\<lparr>k_mg := 2, m_mg := md, max_mg := SIZE_MAX,
            working_mg := four_rows_original,
            stdout_mg := [Notice ''Already meets K-Anonymity Threshold!'']\<rparr>, globals0 False)"
proof -
  have c: "(columns four_rows_original + 2 ^ 64 - 1) mod 2 ^ 64 = 0"
    by (simp add: four_rows_original_def one_column_def columns_def)
  from already_anonymous_returns[of four_rows_original 2 "globals0 False" "globals0 False" md SIZE_MAX 0]
    k_anonymity_original
  show ?thesis unfolding c by simp
qed

text \<open>
  Claim C2 at the table of the rows (A, x) and (A, y) with \<open>k = 2\<close>.  At the last row
  of column 0, with that column unchanged, the certainty score is 0, which is below any
  best score, and \<^verbatim>\<open>k_anonymity\<close> holds on the column; the test fails all the same under
  the certainty metric, where it asks for a score other than 0, and passes under minimal
  distortion.  With the column suppressed and a best score of 1 the test passes under the
  certainty metric, though the score 2 is above the best, and fails under minimal
  distortion.  As a result the exhaustive search with the certainty metric never tries the
  tables that keep column 0 and ends with the best score 3, where the search with minimal
  distortion ends with 2 (for the table (A, *), (A, *), whose certainty score is 2 too).
\<close>

theorem prune_test_differs_by_metric:
  "prune_test (unchanged_prefix c_metric PlusInf) 0 (globals0 False) = Inr (False, globals0 False) \<and>
   certainty_score two_columns two_columns (globals0 False) = Inr (Finite 0, globals0 False) \<and>
   k_anonymity two_columns two_columns 2 0 (globals0 False) = Inr (True, globals0 False) \<and>
   prune_test (unchanged_prefix md PlusInf) 0 (globals0 False) = Inr (True, globals0 False) \<and>
   prune_test (suppressed_prefix c_metric (Finite 1)) 0 (globals0 False) = Inr (True, globals0 False) \<and>
   prune_test (suppressed_prefix md (Finite 1)) 0 (globals0 False) = Inr (False, globals0 False) \<and>
   map_sum id (\<lambda>(s, g). map printed_best (stdout_mg s))
     (MinGen_anonymize 2 c_metric SIZE_MAX 10 (MinGen_new two_columns) (globals0 False)) = Inr [Some (Finite 3)] \<and>
   map_sum id (\<lambda>(s, g). map printed_best (stdout_mg s))
     (MinGen_anonymize 2 md SIZE_MAX 10 (MinGen_new two_columns) (globals0 False)) = Inr [Some (Finite 2)]"
proof -
  note ev = mg_eval two_columns_def table_eval globals0_def metric_eval upt_rec k_tree.simps Let_def
    unchanged_prefix_def suppressed_prefix_def
  have "prune_test (unchanged_prefix c_metric PlusInf) 0 (globals0 False) = Inr (False, globals0 False)"
    by (simp add: ev)
  moreover have "certainty_score two_columns two_columns (globals0 False) = Inr (Finite 0, globals0 False)"
    by (simp add: ev)
  moreover have "k_anonymity two_columns two_columns 2 0 (globals0 False) = Inr (True, globals0 False)"
    by (simp add: ev)
  moreover have "prune_test (unchanged_prefix md PlusInf) 0 (globals0 False) = Inr (True, globals0 False)"
    by (simp add: ev)
  moreover have "prune_test (suppressed_prefix c_metric (Finite 1)) 0 (globals0 False) = Inr (True, globals0 False)"
    by (simp add: ev)
  moreover have "prune_test (suppressed_prefix md (Finite 1)) 0 (globals0 False) = Inr (False, globals0 False)"
    by (simp add: ev)
  moreover have "map_sum id (\<lambda>(s, g). map printed_best (stdout_mg s))
     (MinGen_anonymize 2 c_metric SIZE_MAX 10 (MinGen_new two_columns) (globals0 False)) = Inr [Some (Finite 3)]"
    by (simp add: ev)
  moreover have "map_sum id (\<lambda>(s, g). map printed_best (stdout_mg s))
     (MinGen_anonymize 2 md SIZE_MAX 10 (MinGen_new two_columns) (globals0 False)) = Inr [Some (Finite 2)]"
    by (simp add: ev)
  ultimately show ?thesis by simp
qed

section \<open>The fitness of the genetic algorithm\<close>

text \<open>
  The candidate sets of two shapes of match lists: every row matching every original, and
  one row matching only its own original while the others match all of them.
\<close>

lemma k_tree_as_K_spec:
  "k_tree ms [] (replicate (length ms) {}) 0 = map (K_spec ms) [0..<length ms]"
  using k_tree_K_spec[of ms] by (intro nth_equalityI) simp_all

lemma K_spec_all_free:
  assumes "r < n"
  shows "K_spec (replicate n [0..<n]) r = {..<n}"
proof (intro set_eqI iffI)
  fix v assume "v \<in> K_spec (replicate n [0..<n]) r"
  then obtain \<sigma> where "\<forall>i<n. \<sigma> i \<in> set (replicate n [0..<n] ! i)" and "v = \<sigma> r"
    by (auto simp: K_spec_def)
  with assms show "v \<in> {..<n}" by auto
next
  fix v assume "v \<in> {..<n}"
  then have v: "v < n" by simp
  let ?\<sigma> = "\<lambda>i. if i = r then v else if i = v then r else i"
  have "inj_on ?\<sigma> {..<length (replicate n [0..<n])}"
    by (auto simp: inj_on_def split: if_splits)
  moreover have "\<forall>i<length (replicate n [0..<n]). ?\<sigma> i \<in> set (replicate n [0..<n] ! i)"
    using assms v by auto
  moreover have "v = ?\<sigma> r" by simp
  ultimately have "\<exists>\<sigma>. v = \<sigma> r \<and> inj_on \<sigma> {..<length (replicate n [0..<n])} \<and>
      (\<forall>i<length (replicate n [0..<n]). \<sigma> i \<in> set (replicate n [0..<n] ! i))"
    by (intro exI[of _ ?\<sigma>] conjI)
  then show "v \<in> K_spec (replicate n [0..<n]) r"
    unfolding K_spec_def by simp
qed

lemma K_spec_first_forced:
  "K_spec ([0] # replicate m [0..<Suc m]) 0 = {0}"
proof (intro set_eqI iffI)
  fix v assume "v \<in> K_spec ([0] # replicate m [0..<Suc m]) 0"
  then obtain \<sigma> where "\<forall>i<Suc m. \<sigma> i \<in> set (([0] # replicate m [0..<Suc m]) ! i)" and "v = \<sigma> 0"
    by (auto simp: K_spec_def)
  then show "v \<in> {0}" by auto
next
  fix v :: nat assume "v \<in> {0}"
  then have v: "v = 0" by simp
  have "inj_on (\<lambda>i::nat. i) {..<length ([0] # replicate m [0..<Suc m])}" by simp
  moreover have "\<forall>i<length ([0] # replicate m [0..<Suc m]). i \<in> set (([0] # replicate m [0..<Suc m]) ! i)"
    by (auto simp: nth_Cons' simp del: upt_Suc)
  moreover have "v = (\<lambda>i::nat. i) 0" using v by simp
  ultimately have "\<exists>\<sigma>. v = \<sigma> 0 \<and> inj_on \<sigma> {..<length ([0] # replicate m [0..<Suc m])} \<and>
      (\<forall>i<length ([0] # replicate m [0..<Suc m]). \<sigma> i \<in> set (([0] # replicate m [0..<Suc m]) ! i))"
    by (intro exI[of _ "\<lambda>i::nat. i"] conjI)
  then show "v \<in> K_spec ([0] # replicate m [0..<Suc m]) 0"
    unfolding K_spec_def by simp
qed

lemma K_spec_others:
  assumes "0 < r" "r \<le> m"
  shows "K_spec ([0] # replicate m [0..<Suc m]) r = {1..m}"
proof (intro set_eqI iffI)
  let ?ms = "[0] # replicate m [0..<Suc m]"
  fix v assume "v \<in> K_spec ?ms r"
  then obtain \<sigma> where inj: "inj_on \<sigma> {..<Suc m}"
    and mem: "\<forall>i<Suc m. \<sigma> i \<in> set (?ms ! i)" and v: "v = \<sigma> r"
    by (auto simp: K_spec_def)
  from mem have s0: "\<sigma> 0 = 0" by auto
  have nr: "?ms ! r = [0..<Suc m]" using assms by (simp add: nth_Cons' del: upt_Suc)
  have "r < Suc m" using assms by simp
  with mem have "\<sigma> r \<in> set (?ms ! r)" by blast
  then have le: "\<sigma> r \<le> m" unfolding nr by (auto simp del: upt_Suc)
  have "\<sigma> r \<noteq> 0"
  proof
    assume "\<sigma> r = 0"
    with s0 have "\<sigma> r = \<sigma> 0" by simp
    with inj assms have "r = 0" by (auto simp: inj_on_def)
    with assms show False by simp
  qed
  with le v show "v \<in> {1..m}" by simp
next
  let ?ms = "[0] # replicate m [0..<Suc m]"
  fix v assume "v \<in> {1..m}"
  then have v: "1 \<le> v" "v \<le> m" by simp_all
  let ?\<sigma> = "\<lambda>i. if i = r then v else if i = v then r else i"
  have "inj_on ?\<sigma> {..<length ?ms}"
    by (auto simp: inj_on_def split: if_splits)
  moreover have "\<forall>i<length ?ms. ?\<sigma> i \<in> set (?ms ! i)"
    using assms v by (auto simp: nth_Cons' simp del: upt_Suc)
  moreover have "v = ?\<sigma> r" by simp
  ultimately have "\<exists>\<sigma>. v = \<sigma> r \<and> inj_on \<sigma> {..<length ?ms} \<and>
      (\<forall>i<length ?ms. \<sigma> i \<in> set (?ms ! i))"
    by (intro exI[of _ ?\<sigma>] conjI)
  then show "v \<in> K_spec ?ms r"
    unfolding K_spec_def by simp
qed

lemma partial_matches_shape:
  "[[0], [0, 1, 2, 3, 4, 5], [0, 1, 2, 3, 4, 5], [0, 1, 2, 3, 4, 5], [0, 1, 2, 3, 4, 5], [0, 1, 2, 3, 4, 5]]
   = [0] # replicate 5 [0..<Suc 5]"
  by (simp add: numeral_eq_Suc upt_rec)

lemma suppressed_matches_shape:
  "[[0, 1, 2, 3, 4, 5], [0, 1, 2, 3, 4, 5], [0, 1, 2, 3, 4, 5], [0, 1, 2, 3, 4, 5], [0, 1, 2, 3, 4, 5], [0, 1, 2, 3, 4, 5]]
   = replicate 6 [0..<6]"
  by (simp add: numeral_eq_Suc upt_rec)

lemma k_tree_partial:
  "k_tree [[0], [0, 1, 2, 3, 4, 5], [0, 1, 2, 3, 4, 5], [0, 1, 2, 3, 4, 5], [0, 1, 2, 3, 4, 5], [0, 1, 2, 3, 4, 5]]
     [] (replicate 6 {}) 0 = [{0}, {1..5}, {1..5}, {1..5}, {1..5}, {1..5}]"
proof -
  let ?ms = "[0] # replicate 5 [0..<Suc 5]"
  have l: "length ?ms = 6" by simp
  have "k_tree ?ms [] (replicate (length ?ms) {}) 0 = map (K_spec ?ms) [0..<length ?ms]"
    by (rule k_tree_as_K_spec)
  also have "[0..<length ?ms] = [0, 1, 2, 3, 4, 5]" by (simp add: upt_rec)
  also have "map (K_spec ?ms) [0, 1, 2, 3, 4, 5] = [{0}, {1..5}, {1..5}, {1..5}, {1..5}, {1..5}]"
    using K_spec_first_forced[of 5] K_spec_others[of _ 5] by simp
  finally show ?thesis unfolding partial_matches_shape l .
qed

lemma k_tree_suppressed:
  "k_tree [[0, 1, 2, 3, 4, 5], [0, 1, 2, 3, 4, 5], [0, 1, 2, 3, 4, 5], [0, 1, 2, 3, 4, 5], [0, 1, 2, 3, 4, 5], [0, 1, 2, 3, 4, 5]]
     [] (replicate 6 {}) 0 = replicate 6 {..<6}"
proof -
  let ?ms = "replicate 6 [0..<6]"
  have l: "length ?ms = 6" by simp
  have "k_tree ?ms [] (replicate (length ?ms) {}) 0 = map (K_spec ?ms) [0..<length ?ms]"
    by (rule k_tree_as_K_spec)
  also have "\<dots> = map (\<lambda>r. {..<6}) [0..<length ?ms]"
    using K_spec_all_free[of _ 6] by (intro map_cong) simp_all
  also have "\<dots> = replicate 6 {..<6}" by (simp add: map_replicate_const)
  finally show ?thesis unfolding suppressed_matches_shape l .
qed



lemmas six_eval = six_rows_original_def six_rows_partial_def six_rows_suppressed_def six_rows_ga_def
  table_eval globals0_def match_row_def field_matches_def upt_rec

lemma k_matches_partial:
  "k_matches six_rows_partial six_rows_original 2 0 [0..<6] [] (globals0 False)
   = Inr (None, (globals0 False)\<lparr>match_trims := 1\<rparr>)"
  by (simp add: six_eval)

lemma av_matches_partial:
  "av_matches six_rows_partial six_rows_original 0 [0..<6] [] ((globals0 False)\<lparr>match_trims := 1\<rparr>)
   = Inr ([[0], [0, 1, 2, 3, 4, 5], [0, 1, 2, 3, 4, 5], [0, 1, 2, 3, 4, 5], [0, 1, 2, 3, 4, 5], [0, 1, 2, 3, 4, 5]],
          (globals0 False)\<lparr>match_trims := 1\<rparr>)"
  by (simp add: six_eval)

lemma k_matches_suppressed:
  "k_matches six_rows_suppressed six_rows_original 2 0 [0..<6] [] (globals0 False)
   = Inr (Some [[0, 1, 2, 3, 4, 5], [0, 1, 2, 3, 4, 5], [0, 1, 2, 3, 4, 5], [0, 1, 2, 3, 4, 5], [0, 1, 2, 3, 4, 5], [0, 1, 2, 3, 4, 5]],
          globals0 False)"
  by (simp add: six_eval)

lemma six_rows_shape:
  "rows six_rows_partial = 6" "default_column six_rows_partial SIZE_MAX = 0"
  "rows six_rows_suppressed = 6" "default_column six_rows_suppressed SIZE_MAX = 0"
  by (simp_all add: six_rows_partial_def six_rows_suppressed_def one_column_def plain_column_def
        default_column_def columns_def)

lemma six_lengths:
  "length [[0], [0, 1, 2, 3, 4, 5], [0, 1, 2, 3, 4, 5], [0, 1, 2, 3, 4, 5], [0, 1, 2, 3, 4, 5], [0, 1, 2, 3, 4, 5::nat]] = 6"
  "length [[0, 1, 2, 3, 4, 5], [0, 1, 2, 3, 4, 5], [0, 1, 2, 3, 4, 5], [0, 1, 2, 3, 4, 5], [0, 1, 2, 3, 4, 5], [0, 1, 2, 3, 4, 5::nat]] = 6"
  by simp_all

lemma k_anonymity_partial:
  "k_anonymity six_rows_partial six_rows_original 2 SIZE_MAX (globals0 False)
   = Inr (False, (globals0 False)\<lparr>match_trims := 1\<rparr>)"
  unfolding k_anonymity_def six_rows_shape k_matches_partial by simp

lemma k_anonymity_suppressed:
  "k_anonymity six_rows_suppressed six_rows_original 2 SIZE_MAX (globals0 False)
   = Inr (True, globals0 False)"
  unfolding k_anonymity_def six_rows_shape k_matches_suppressed sum.case prod.case option.case
    six_lengths k_tree_suppressed
  by (simp add: list_all_iff)

lemma rnd_fitness: "rnd (9087659 / 4194304) = Finite (9087659 / 4194304)"
  by (subst rnd_eq[of "-22"]) (simp_all add: round_even_def)

lemma av_k_anonymity_partial:
  "av_k_anonymity six_rows_partial six_rows_original SIZE_MAX ((globals0 False)\<lparr>match_trims := 1\<rparr>)
   = Inr (Finite (9087659 / 2097152), (globals0 False)\<lparr>match_trims := 1\<rparr>)"
  unfolding av_k_anonymity_def six_rows_shape av_matches_partial sum.case prod.case Let_def
    six_lengths k_tree_partial
  by (simp add: float_eval rnd_13_3)

lemma minimal_distortion_suppressed:
  "minimal_distortion six_rows_suppressed six_rows_original (globals0 False)
   = Inr (Finite 6, globals0 False)"
  by (simp add: six_eval minimal_distortion_def score_cached_def score_store_def float_eval)

lemma fitness_suppressed:
  "fitness six_rows_ga six_rows_suppressed (globals0 False) = Inr (Finite 2, globals0 False)"
proof -
  have s: "original_ga six_rows_ga = six_rows_original" "k_ga six_rows_ga = 2"
    "m_ga six_rows_ga = md" "cells_ga six_rows_ga = 6"
    by (simp_all add: six_rows_ga_def)
  show ?thesis
    unfolding fitness_def s k_anonymity_suppressed sum.case prod.case if_True
      minimal_distortion_suppressed
    by (simp add: float_eval)
qed

lemma fitness_partial:
  "fitness six_rows_ga six_rows_partial (globals0 False)
   = Inr (Finite (9087659 / 4194304), (globals0 False)\<lparr>match_trims := 1\<rparr>)"
proof -
  have s: "original_ga six_rows_ga = six_rows_original" "k_ga six_rows_ga = 2"
    by (simp_all add: six_rows_ga_def)
  show ?thesis
    unfolding fitness_def s k_anonymity_partial sum.case prod.case if_False
      av_k_anonymity_partial
    by (simp add: float_eval rnd_fitness)
qed

lemma six_rows_ga_new:
  "GeneticAlgorithm_new six_rows_original = Inr six_rows_ga"
  by (simp add: GeneticAlgorithm_new_def six_eval)

text \<open>
  The two stages of \<^verbatim>\<open>fitness(f)\<close>, as the code computes them on floats: when
  \<^verbatim>\<open>k_anonymity(f, original, k)\<close> returns true the fitness is \<open>k * cells / score\<close> for
  the score of the configured metric, and when it returns false the fitness is the
  average k-anonymity divided by \<open>k\<close>.
\<close>

lemma fitness_stages:
  "(k_anonymity f (original_ga s) (k_ga s) SIZE_MAX g = Inr (True, g1) \<and>
    (if m_ga s = md then minimal_distortion f (original_ga s) g1
     else certainty_score f (original_ga s) g1) = Inr (sc, g2)
    \<longrightarrow> fitness s f g = Inr (fdiv (fmul (of_size (k_ga s)) (of_size (cells_ga s))) sc, g2)) \<and>
   (k_anonymity f (original_ga s) (k_ga s) SIZE_MAX g = Inr (False, g1) \<and>
    av_k_anonymity f (original_ga s) SIZE_MAX g1 = Inr (av, g3)
    \<longrightarrow> fitness s f g = Inr (fdiv av (of_size (k_ga s)), g3))"
  by (simp add: fitness_def)

text \<open>
  Claim C4 says that the fitness of a table that is not k-anonymous is strictly below the
  fitness of every k-anonymous table, so that a k-anonymous table comes first in the
  population.  For the object that the constructor builds for the six rows
  A,B,B,B,B,B (\<open>k = 2\<close>, minimal distortion, 6 cells) it is the other way round.  The
  table *,*,*,*,*,* is 2-anonymous, its score is 6 and its fitness \<open>2 * 6 / 6 = 2\<close>.
  The table A,*,*,*,*,* is not 2-anonymous (its first row matches one original only);
  its average k-anonymity is \<open>(1 + 5 * 5) / 6\<close> and its fitness half of that, in floats
  \<open>9087659 / 4194304\<close>, a little more than \<open>13 / 6\<close>.  This fitness is the greater one,
  and \<^verbatim>\<open>emplace\<close> puts the table that is not 2-anonymous in front of the 2-anonymous
  one.
\<close>

theorem fitness_ranks_non_anonymous_first:
  "GeneticAlgorithm_new six_rows_original = Inr six_rows_ga \<and>
   k_anonymity six_rows_suppressed six_rows_original 2 SIZE_MAX (globals0 False)
     = Inr (True, globals0 False) \<and>
   fitness six_rows_ga six_rows_suppressed (globals0 False) = Inr (Finite 2, globals0 False) \<and>
   k_anonymity six_rows_partial six_rows_original 2 SIZE_MAX (globals0 False)
     = Inr (False, (globals0 False)\<lparr>match_trims := 1\<rparr>) \<and>
   fitness six_rows_ga six_rows_partial (globals0 False)
     = Inr (Finite (9087659 / 4194304), (globals0 False)\<lparr>match_trims := 1\<rparr>) \<and>
   flt (Finite 2) (Finite (9087659 / 4194304)) \<and>
   emplace_instance \<lparr>s_inst = Finite (9087659 / 4194304), table_inst = six_rows_partial\<rparr>
       [\<lparr>s_inst = Finite 2, table_inst = six_rows_suppressed\<rparr>]
     = [\<lparr>s_inst = Finite (9087659 / 4194304), table_inst = six_rows_partial\<rparr>,
        \<lparr>s_inst = Finite 2, table_inst = six_rows_suppressed\<rparr>]"
proof -
  have "flt (Finite 2) (Finite (9087659 / 4194304))" by (simp add: flt_def)
  then show ?thesis
    using six_rows_ga_new k_anonymity_suppressed fitness_suppressed k_anonymity_partial
      fitness_partial
    by simp
qed

section \<open>The mutation rolls of the genetic algorithm\<close>

lemma draw_bounds: "draw a b g = Inr (v, g') \<Longrightarrow> a \<le> v \<and> v \<le> b"
proof -
  assume d: "draw a b g = Inr (v, g')"
  then have ab: "a \<le> b" and v: "v = a + raw g (used g) mod (b - a + 1)"
    by (auto simp: draw_def split: if_splits)
  have "raw g (used g) mod Suc (b - a) < Suc (b - a)"
    by (rule mod_less_divisor) simp
  then have "raw g (used g) mod (b - a + 1) \<le> b - a" by simp
  with ab v show ?thesis by linarith
qed

lemma make_offspring_mutations:
  "make_offspring n current next_gen s g = Inr (next_gen', s', g') \<Longrightarrow> mutations_ga s' = mutations_ga s"
proof (induction n arbitrary: current next_gen s g)
  case 0
  then show ?case by simp
next
  case (Suc n)
  from Suc.prems obtain cur' ng' g2 where
    "make_offspring n cur' ng' (s\<lparr>states_ga := states_ga s + 1\<rparr>) g2 = Inr (next_gen', s', g')"
    by (auto split: sum.splits prod.splits if_splits)
  from Suc.IH[OF this] show ?case by simp
qed

lemma elites_mutations:
  "elites xs next_gen s g = Inr (next_gen', s', g') \<Longrightarrow> mutations_ga s' = mutations_ga s"
proof (induction xs arbitrary: next_gen s g)
  case Nil
  then show ?case by simp
next
  case (Cons x xs)
  from Cons.prems obtain ng1 s1 g1 where
    m: "make_offspring (((population_ga s + 2 ^ 64 - cutoff_ga s) mod 2 ^ 64) div cutoff_ga s)
          (generation_ga s ! x) (emplace_instance (generation_ga s ! x) next_gen)
          (s\<lparr>states_ga := states_ga s + 1\<rparr>) g = Inr (ng1, s1, g1)"
    and e: "elites xs ng1 s1 g1 = Inr (next_gen', s', g')"
    by (auto split: sum.splits prod.splits if_splits)
  from make_offspring_mutations[OF m] Cons.IH[OF e] show ?case by simp
qed

lemma escalate_mutations: "escalate s = Inr s1 \<Longrightarrow> mutations_ga s1 = mutations_ga s"
  by (auto simp: escalate_def split: if_splits list.splits)

lemma generation_step_mutations:
  "generation_step s g = Inr (s', g') \<Longrightarrow> mutations_ga s' = mutations_ga s"
proof -
  assume a: "generation_step s g = Inr (s', g')"
  then obtain s1 and leader :: instance_ga and ng s2 where e: "escalate s = Inr s1"
    and el: "elites [0..<cutoff_ga s1] [] (s1\<lparr>best_ga := s_inst leader\<rparr>) g = Inr (ng, s2, g')"
    and s': "s' = s2\<lparr>generation_ga := ng, iter_ga := iter_ga s2 + 1\<rparr>"
    by (auto simp: generation_step_def split: sum.splits list.splits if_splits prod.splits)
  from escalate_mutations[OF e] elites_mutations[OF el] s' show ?thesis by simp
qed

lemma generations_mutations:
  "generations n s g = Inr (s', g') \<Longrightarrow> mutations_ga s' = mutations_ga s"
proof (induction n arbitrary: s g)
  case 0
  then show ?case by simp
next
  case (Suc n)
  from Suc.prems obtain s1 g1 where st: "generation_step s g = Inr (s1, g1)"
    and r: "generations n s1 g1 = Inr (s', g')"
    by (auto split: sum.splits prod.splits)
  from generation_step_mutations[OF st] Suc.IH[OF r] show ?case by simp
qed

lemma worker_mutations:
  "GeneticAlgorithm_worker s g = Inr (ts, s', g') \<Longrightarrow> mutations_ga s' = mutations_ga s"
proof -
  assume "GeneticAlgorithm_worker s g = Inr (ts, s', g')"
  then have "generations (max_ga s) (s\<lparr>iter_ga := 0\<rparr>) g = Inr (s', g')"
    by (auto simp: GeneticAlgorithm_worker_def split: sum.splits prod.splits list.splits)
  from generations_mutations[OF this] show ?thesis by simp
qed

text \<open>
  Claim C5.  The range of the per-cell roll of \<^verbatim>\<open>combine\<close> is the member \<^verbatim>\<open>mutations\<close>.
  \<^verbatim>\<open>anonymize\<close> stores the mutation rate without touching it, the constructor leaves it
  at \<open>[0, 110]\<close>, and a whole run of \<^verbatim>\<open>anonymize_worker\<close> returns it unchanged: the
  escalation doubles \<^verbatim>\<open>m_rate\<close> and declares two local distributions, which shadow the
  members and are dropped at the end of the block.  After the escalation of a run of 10
  generations with the rate 10 the rate is 20, and whatever the generator gives, the roll
  that \<^verbatim>\<open>combine\<close> draws from the member is 110 at most: the rolls from 111 to 120 never
  come.
\<close>

theorem mutation_rolls_ignore_rate:
  "mutations_ga (store_parameters k_val m_val iters p_val mut_rate s) = mutations_ga s \<and>
   map_sum id mutations_ga (GeneticAlgorithm_new orig)
     = map_sum id (\<lambda>s'. (0, 110)) (GeneticAlgorithm_new orig) \<and>
   map_sum id (\<lambda>(ts, s', g'). mutations_ga s') (GeneticAlgorithm_worker s g)
     = map_sum id (\<lambda>r. mutations_ga s) (GeneticAlgorithm_worker s g) \<and>
   escalate running_ga
     = Inr (running_ga\<lparr>m_rate_ga := 20, view_ga := \<lparr>s_inst = Finite 2, table_inst = six_rows_suppressed\<rparr>,
                       best_ga := Finite 2\<rparr>) \<and>
   m_rate_ga running_ga = 10 \<and> mutations_ga running_ga = (0, 110) \<and>
   (\<forall>gen v gen'.
      draw (fst (mutations_ga (running_ga\<lparr>m_rate_ga := 20\<rparr>)))
           (snd (mutations_ga (running_ga\<lparr>m_rate_ga := 20\<rparr>))) gen = Inr (v, gen')
      \<longrightarrow> v \<le> 110)"
proof -
  have 1: "mutations_ga (store_parameters k_val m_val iters p_val mut_rate s) = mutations_ga s"
    by (simp add: store_parameters_def)
  have 2: "map_sum id mutations_ga (GeneticAlgorithm_new orig)
     = map_sum id (\<lambda>s'. (0, 110)) (GeneticAlgorithm_new orig)"
    by (auto simp: GeneticAlgorithm_new_def split: sum.splits)
  have 3: "map_sum id (\<lambda>(ts, s', g'). mutations_ga s') (GeneticAlgorithm_worker s g)
     = map_sum id (\<lambda>r. mutations_ga s) (GeneticAlgorithm_worker s g)"
  proof (cases "GeneticAlgorithm_worker s g")
    case (Inl e)
    then show ?thesis by simp
  next
    case (Inr r)
    obtain ts s' g' where r: "r = (ts, s', g')" by (cases r)
    from worker_mutations[OF Inr[unfolded r]] Inr r show ?thesis by simp
  qed
  have 4: "escalate running_ga
     = Inr (running_ga\<lparr>m_rate_ga := 20, view_ga := \<lparr>s_inst = Finite 2, table_inst = six_rows_suppressed\<rparr>,
                       best_ga := Finite 2\<rparr>)"
    by (simp add: escalate_def running_ga_def six_rows_ga_def)
  have 5: "m_rate_ga running_ga = 10" "mutations_ga running_ga = (0, 110)"
    by (simp_all add: running_ga_def six_rows_ga_def)
  have 6: "\<forall>gen v gen'.
      draw (fst (mutations_ga (running_ga\<lparr>m_rate_ga := 20\<rparr>)))
           (snd (mutations_ga (running_ga\<lparr>m_rate_ga := 20\<rparr>))) gen = Inr (v, gen')
      \<longrightarrow> v \<le> 110"
    using draw_bounds[of 0 110] by (auto simp: 5)
  from 1 2 3 4 5 6 show ?thesis by simp
qed

text \<open>
  The last part of the theorem at a generator whose next raw number is 115: the roll for
  the bounds of the member is 4.
\<close>

theorem mutation_rolls_ignore_rate_witness:
  "draw (fst (mutations_ga (running_ga\<lparr>m_rate_ga := 20\<rparr>)))
        (snd (mutations_ga (running_ga\<lparr>m_rate_ga := 20\<rparr>))) rng115 = Inr (4, rng115\<lparr>used := 1\<rparr>) \<and>
   (4::nat) \<le> 110"
proof -
  have d: "draw (fst (mutations_ga (running_ga\<lparr>m_rate_ga := 20\<rparr>)))
        (snd (mutations_ga (running_ga\<lparr>m_rate_ga := 20\<rparr>))) rng115 = Inr (4, rng115\<lparr>used := 1\<rparr>)"
    by (simp add: running_ga_def six_rows_ga_def draw_def rng115_def)
  from mutation_rolls_ignore_rate[where k_val = 2 and m_val = md and iters = 10 and p_val = 100
      and mut_rate = 10 and s = running_ga and orig = six_rows_original and g = "globals0 False"] d
  have "(4::nat) \<le> 110" by blast
  with d show ?thesis by simp
qed

end
